theory Spec2Isabelle
  imports Main
begin

section \<open>Constants and pattern catalogue\<close>

text \<open>
  The module-level constants of \<^verbatim>\<open>conways_game_of_life_app.py\<close>. The functions below take
  the row and column counts as parameters \<open>R\<close> and \<open>C\<close> (Python integers, hence \<open>int\<close>);
  the program itself always runs them at \<open>GRID_ROWS\<close> and \<open>GRID_COLS\<close>.
\<close>

definition GRID_ROWS :: int where
  "GRID_ROWS = 60"

definition GRID_COLS :: int where
  "GRID_COLS = 60"

definition Glider :: "(int \<times> int) list" where
  "Glider = [(25, 26), (26, 27), (27, 25), (27, 26), (27, 27)]"

definition LWSS :: "(int \<times> int) list" where
  "LWSS = [(25, 26), (26, 25), (26, 29), (27, 25), (28, 25), (28, 28), (28, 29), (29, 25), (29, 29)]"

definition Blinker :: "(int \<times> int) list" where
  "Blinker = [(30, 29), (30, 30), (30, 31)]"

definition Toad :: "(int \<times> int) list" where
  "Toad = [(25, 26), (25, 27), (25, 28), (26, 25), (26, 26), (26, 27)]"

definition PATTERNS :: "(string \<times> (string \<times> (int \<times> int) list) list) list" where
  "PATTERNS =
     [(''Gliders'', [(''Glider'', Glider), (''Lightweight Spaceship (LWSS)'', LWSS)]),
      (''Oscillators'', [(''Blinker'', Blinker), (''Toad'', Toad)])]"

section \<open>Arrays, errors and the object store\<close>

text \<open>
  The exceptions the modelled statements can raise: an index outside an array
  (\<open>IndexError\<close>), a negative dimension handed to \<^verbatim>\<open>np.zeros\<close> (\<open>ValueError\<close>) and a
  zero modulus (\<open>ZeroDivisionError\<close>).
\<close>

datatype error = IndexError | ValueError | ZeroDivisionError

text \<open>
  A two-dimensional array is the list of its rows. The cells are the floats \<open>0.0\<close> and
  \<open>1.0\<close> in the program (the default dtype of \<^verbatim>\<open>np.zeros\<close>); they and every sum of eight
  of them are exact in floating point, so a cell is modelled as an \<open>int\<close>.
\<close>

type_synonym ndarray = "int list list"

type_synonym addr = nat

text \<open>
  Arrays are objects: variables hold references. The store maps every address to the
  array that lives there; \<open>fresh\<close> is the next address never handed out so far.
\<close>

record store =
  arr :: "addr \<Rightarrow> ndarray"
  fresh :: addr

text \<open>
  The closure state of \<^verbatim>\<open>run_simulation\<close>: the store and the \<^verbatim>\<open>nonlocal\<close> variable
  \<^verbatim>\<open>grid\<close>, a reference into it.
\<close>

record sim =
  heap :: store
  grid :: addr

text \<open>Normalising an index along an axis of length \<open>n\<close>: negative indices count from the end.\<close>

definition index :: "nat \<Rightarrow> int \<Rightarrow> error + nat" where
  "index n i =
     (if 0 \<le> i \<and> i < int n then Inr (nat i)
      else if - int n \<le> i \<and> i < 0 then Inr (nat (i + int n))
      else Inl IndexError)"

text \<open>\<^verbatim>\<open>a[i, j]\<close>\<close>

definition getitem :: "ndarray \<Rightarrow> int \<Rightarrow> int \<Rightarrow> error + int" where
  "getitem a i j =
     (case index (length a) i of
        Inl e \<Rightarrow> Inl e
      | Inr r \<Rightarrow>
          (case index (length (a ! r)) j of
             Inl e \<Rightarrow> Inl e
           | Inr c \<Rightarrow> Inr (a ! r ! c)))"

text \<open>\<^verbatim>\<open>a[i, j] = v\<close>\<close>

definition setitem :: "ndarray \<Rightarrow> int \<Rightarrow> int \<Rightarrow> int \<Rightarrow> error + ndarray" where
  "setitem a i j v =
     (case index (length a) i of
        Inl e \<Rightarrow> Inl e
      | Inr r \<Rightarrow>
          (case index (length (a ! r)) j of
             Inl e \<Rightarrow> Inl e
           | Inr c \<Rightarrow> Inr (a[r := (a ! r)[c := v]])))"

text \<open>
  The contents of \<^verbatim>\<open>np.zeros((rows, cols))\<close>, a library call: numpy raises \<open>ValueError\<close>
  for a negative dimension and returns an array of zeros otherwise, also for a
  dimension of 0. The model has no upper limit on the size: numpy also refuses a
  dimension of \<open>2^63\<close> or more and an array that does not fit in memory, which this
  definition does not describe. The program calls it at \<open>(GRID_ROWS, GRID_COLS)\<close> only.
\<close>

definition zeros :: "int \<Rightarrow> int \<Rightarrow> error + ndarray" where
  "zeros rows cols =
     (if rows < 0 \<or> cols < 0 then Inl ValueError
      else Inr (replicate (nat rows) (replicate (nat cols) 0)))"

text \<open>A new object is placed at the fresh address.\<close>

definition alloc :: "ndarray \<Rightarrow> store \<Rightarrow> addr \<times> store" where
  "alloc a h = (fresh h, \<lparr>arr = (arr h)(fresh h := a), fresh = Suc (fresh h)\<rparr>)"

text \<open>\<^verbatim>\<open>np.zeros((rows, cols))\<close>, line 112.\<close>

definition np_zeros :: "int \<Rightarrow> int \<Rightarrow> store \<Rightarrow> error + addr \<times> store" where
  "np_zeros rows cols h =
     (case zeros rows cols of Inl e \<Rightarrow> Inl e | Inr a \<Rightarrow> Inr (alloc a h))"

text \<open>\<^verbatim>\<open>p.copy()\<close>: a new array object with the contents of the one at \<open>p\<close>.\<close>

definition np_copy :: "addr \<Rightarrow> store \<Rightarrow> addr \<times> store" where
  "np_copy p h = alloc (arr h p) h"

text \<open>Reading \<^verbatim>\<open>p[i, j]\<close> and writing \<^verbatim>\<open>p[i, j] = v\<close> through a reference \<open>p\<close>.\<close>

definition load :: "store \<Rightarrow> addr \<Rightarrow> int \<Rightarrow> int \<Rightarrow> error + int" where
  "load h p i j = getitem (arr h p) i j"

definition store_cell :: "addr \<Rightarrow> int \<Rightarrow> int \<Rightarrow> int \<Rightarrow> store \<Rightarrow> error + store" where
  "store_cell p i j v h =
     (case setitem (arr h p) i j v of
        Inl e \<Rightarrow> Inl e
      | Inr a \<Rightarrow> Inr (h\<lparr>arr := (arr h)(p := a)\<rparr>))"

text \<open>Python's \<^verbatim>\<open>a % n\<close> on integers: the result has the sign of \<open>n\<close>, as \<open>mod\<close> on \<open>int\<close>.\<close>

definition py_mod :: "int \<Rightarrow> int \<Rightarrow> error + int" where
  "py_mod a n = (if n = 0 then Inl ZeroDivisionError else Inr (a mod n))"

text \<open>\<^verbatim>\<open>range(n)\<close>: empty when \<open>n \<le> 0\<close>.\<close>

definition py_range :: "int \<Rightarrow> int list" where
  "py_range n = [0..n - 1]"

text \<open>A \<^verbatim>\<open>for\<close> loop over a list: the body threads the state; the first exception ends it.\<close>

fun for_each :: "('a \<Rightarrow> 's \<Rightarrow> error + 's) \<Rightarrow> 'a list \<Rightarrow> 's \<Rightarrow> error + 's" where
  "for_each body [] s = Inr s"
| "for_each body (x # xs) s =
     (case body x s of Inl e \<Rightarrow> Inl e | Inr s' \<Rightarrow> for_each body xs s')"

text \<open>\<^verbatim>\<open>sum(f(x) for x in xs)\<close>, from the start value \<open>acc\<close>, left to right.\<close>

fun py_sum :: "('a \<Rightarrow> error + int) \<Rightarrow> 'a list \<Rightarrow> int \<Rightarrow> error + int" where
  "py_sum f [] acc = Inr acc"
| "py_sum f (x # xs) acc =
     (case f x of Inl e \<Rightarrow> Inl e | Inr v \<Rightarrow> py_sum f xs (acc + v))"

section \<open>Seeding the grid (\<^verbatim>\<open>run_simulation\<close>, lines 112 to 115)\<close>

text \<open>
  \<^verbatim>\<open>if 0 <= i < GRID_ROWS and 0 <= j < GRID_COLS: grid[i, j] = 1\<close>
\<close>

definition seed_cell :: "int \<Rightarrow> int \<Rightarrow> addr \<Rightarrow> int \<times> int \<Rightarrow> store \<Rightarrow> error + store" where
  "seed_cell R C g ij h =
     (case ij of (i, j) \<Rightarrow>
        if (0 \<le> i \<and> i < R) \<and> (0 \<le> j \<and> j < C) then store_cell g i j 1 h else Inr h)"

text \<open>\<^verbatim>\<open>for i, j in cells: ...\<close>\<close>

definition seed :: "int \<Rightarrow> int \<Rightarrow> addr \<Rightarrow> (int \<times> int) list \<Rightarrow> store \<Rightarrow> error + store" where
  "seed R C g cells h = for_each (seed_cell R C g) cells h"

text \<open>
  The part of \<^verbatim>\<open>run_simulation\<close> that creates and seeds the grid (lines 112 to 115),
  after which the variable \<^verbatim>\<open>grid\<close> refers to it. It is not the whole function: the tab,
  the figure and the timer around it are user interface; the \<^verbatim>\<open>try\<close>/\<^verbatim>\<open>except\<close> around the
  body prints an exception instead of passing it on, where this definition returns it;
  and drawing the figure already calls \<^verbatim>\<open>update\<close> once, a call that belongs to
  \<open>animate\<close> below.
\<close>

definition run_simulation :: "int \<Rightarrow> int \<Rightarrow> (int \<times> int) list \<Rightarrow> store \<Rightarrow> error + sim" where
  "run_simulation R C cells h =
     (case np_zeros R C h of
        Inl e \<Rightarrow> Inl e
      | Inr (g, h1) \<Rightarrow>
          (case seed R C g cells h1 of
             Inl e \<Rightarrow> Inl e
           | Inr h2 \<Rightarrow> Inr \<lparr>heap = h2, grid = g\<rparr>))"

section \<open>One generation (\<^verbatim>\<open>update\<close>, lines 118 to 135)\<close>

text \<open>\<^verbatim>\<open>for di in [-1, 0, 1] for dj in [-1, 0, 1] if (di, dj) != (0, 0)\<close>\<close>

definition offsets :: "(int \<times> int) list" where
  "offsets = [(di, dj). di \<leftarrow> [-1, 0, 1], dj \<leftarrow> [-1, 0, 1], (di, dj) \<noteq> (0, 0)]"

text \<open>\<^verbatim>\<open>grid[(i + di) % GRID_ROWS, (j + dj) % GRID_COLS]\<close>\<close>

definition neighbor_cell ::
  "int \<Rightarrow> int \<Rightarrow> store \<Rightarrow> addr \<Rightarrow> int \<Rightarrow> int \<Rightarrow> int \<times> int \<Rightarrow> error + int" where
  "neighbor_cell R C h g i j d =
     (case d of (di, dj) \<Rightarrow>
        (case py_mod (i + di) R of
           Inl e \<Rightarrow> Inl e
         | Inr a \<Rightarrow>
             (case py_mod (j + dj) C of
                Inl e \<Rightarrow> Inl e
              | Inr b \<Rightarrow> load h g a b)))"

text \<open>\<^verbatim>\<open>neighbors = sum(... for di ... for dj ... if ...)\<close>\<close>

definition neighbors :: "int \<Rightarrow> int \<Rightarrow> store \<Rightarrow> addr \<Rightarrow> int \<Rightarrow> int \<Rightarrow> error + int" where
  "neighbors R C h g i j = py_sum (neighbor_cell R C h g i j) offsets 0"

text \<open>
  The body of the two loops for the cell \<open>(i, j)\<close>: \<open>g\<close> is the reference held by
  \<^verbatim>\<open>grid\<close>, \<open>ng\<close> the one held by \<^verbatim>\<open>new_grid\<close>. The \<^verbatim>\<open>elif\<close> reads \<^verbatim>\<open>grid[i, j]\<close> again.
\<close>

definition apply_rules :: "int \<Rightarrow> int \<Rightarrow> addr \<Rightarrow> addr \<Rightarrow> int \<Rightarrow> int \<Rightarrow> store \<Rightarrow> error + store" where
  "apply_rules R C g ng i j h =
     (case neighbors R C h g i j of
        Inl e \<Rightarrow> Inl e
      | Inr n \<Rightarrow>
          (case load h g i j of
             Inl e \<Rightarrow> Inl e
           | Inr v \<Rightarrow>
               if v = 1 \<and> (n < 2 \<or> n > 3) then store_cell ng i j 0 h
               else
                 (case load h g i j of
                    Inl e \<Rightarrow> Inl e
                  | Inr w \<Rightarrow>
                      if w = 0 \<and> n = 3 then store_cell ng i j 1 h
                      else Inr h)))"

text \<open>
  \<^verbatim>\<open>update(frame)\<close>: copy, the two nested loops, then \<^verbatim>\<open>grid = new_grid\<close>. When an
  exception leaves the loops the assignment is not reached.
\<close>

definition update :: "int \<Rightarrow> int \<Rightarrow> sim \<Rightarrow> error + sim" where
  "update R C s =
     (case np_copy (grid s) (heap s) of (new_grid, h1) \<Rightarrow>
        (case for_each
                (\<lambda>i. for_each (\<lambda>j. apply_rules R C (grid s) new_grid i j) (py_range C))
                (py_range R) h1 of
           Inl e \<Rightarrow> Inl e
         | Inr h2 \<Rightarrow> Inr \<lparr>heap = h2, grid = new_grid\<rparr>))"

text \<open>The timer calls \<^verbatim>\<open>update\<close> once per frame: \<open>animate R C n\<close> is \<open>n\<close> such calls.\<close>

fun animate :: "int \<Rightarrow> int \<Rightarrow> nat \<Rightarrow> sim \<Rightarrow> error + sim" where
  "animate R C 0 s = Inr s"
| "animate R C (Suc n) s =
     (case update R C s of Inl e \<Rightarrow> Inl e | Inr s' \<Rightarrow> animate R C n s')"

section \<open>Predicates and functions the properties are stated with\<close>

text \<open>
  An array has shape \<open>(R, C)\<close> when it has \<open>R\<close> rows of \<open>C\<close> cells each; it is binary
  when every cell is \<open>0\<close> (DEAD) or \<open>1\<close> (ALIVE).
\<close>

definition shape :: "int \<Rightarrow> int \<Rightarrow> ndarray \<Rightarrow> bool" where
  "shape R C a = (int (length a) = R \<and> list_all (\<lambda>row. int (length row) = C) a)"

definition binary :: "ndarray \<Rightarrow> bool" where
  "binary a = list_all (list_all (\<lambda>v. v = 0 \<or> v = 1)) a"

text \<open>The cell at an in-range position, and the array with one cell replaced.\<close>

definition cell :: "ndarray \<Rightarrow> int \<Rightarrow> int \<Rightarrow> int" where
  "cell a i j = a ! nat i ! nat j"

definition put :: "ndarray \<Rightarrow> int \<Rightarrow> int \<Rightarrow> int \<Rightarrow> ndarray" where
  "put a i j v = a[nat i := (a ! nat i)[nat j := v]]"

text \<open>
  The sum of the eight cells that \<open>neighbors\<close> reads, and the value the loop body leaves
  in \<^verbatim>\<open>new_grid[i, j]\<close> when the cell of \<^verbatim>\<open>grid\<close> is \<open>v\<close>, its neighbour sum is \<open>n\<close> and the
  copy holds \<open>keep\<close>.
\<close>

definition count :: "int \<Rightarrow> int \<Rightarrow> ndarray \<Rightarrow> int \<Rightarrow> int \<Rightarrow> int" where
  "count R C a i j = sum_list (map (\<lambda>(di, dj). cell a ((i + di) mod R) ((j + dj) mod C)) offsets)"

definition next_cell :: "int \<Rightarrow> int \<Rightarrow> int \<Rightarrow> int" where
  "next_cell v n keep = (if v = 1 \<and> (n < 2 \<or> n > 3) then 0 else if v = 0 \<and> n = 3 then 1 else keep)"

text \<open>
  \<open>frame h p h'\<close>: between \<open>h\<close> and \<open>h'\<close> no object was created and no array other
  than the one at \<open>p\<close> was written.
\<close>

definition frame :: "store \<Rightarrow> addr \<Rightarrow> store \<Rightarrow> bool" where
  "frame h ng h' = (fresh h' = fresh h \<and> (\<forall>p. p \<noteq> ng \<longrightarrow> arr h' p = arr h p))"

text \<open>
  Loop invariants, indexed by the set \<open>X\<close> of iterations done so far: of the inner loop
  of \<open>update\<close> (columns of row \<open>i\<close>), of its outer loop (rows), and of the seeding loop.
\<close>

definition row_inv ::
  "int \<Rightarrow> int \<Rightarrow> ndarray \<Rightarrow> addr \<Rightarrow> store \<Rightarrow> int \<Rightarrow> int set \<Rightarrow> store \<Rightarrow> bool" where
  "row_inv R C a ng h0 i X h =
     (frame h0 ng h \<and> shape R C (arr h ng) \<and>
      (\<forall>i' j'. 0 \<le> i' \<and> 0 \<le> j' \<longrightarrow>
         cell (arr h ng) i' j' =
           (if i' = i \<and> j' \<in> X
            then next_cell (cell a i' j') (count R C a i' j') (cell (arr h0 ng) i' j')
            else cell (arr h0 ng) i' j')))"

definition grid_inv ::
  "int \<Rightarrow> int \<Rightarrow> ndarray \<Rightarrow> addr \<Rightarrow> store \<Rightarrow> int set \<Rightarrow> store \<Rightarrow> bool" where
  "grid_inv R C a ng h0 X h =
     (frame h0 ng h \<and> shape R C (arr h ng) \<and>
      (\<forall>i' j'. 0 \<le> i' \<and> 0 \<le> j' \<and> j' < C \<longrightarrow>
         cell (arr h ng) i' j' =
           (if i' \<in> X
            then next_cell (cell a i' j') (count R C a i' j') (cell (arr h0 ng) i' j')
            else cell (arr h0 ng) i' j')))"

definition seed_inv ::
  "int \<Rightarrow> int \<Rightarrow> addr \<Rightarrow> store \<Rightarrow> (int \<times> int) set \<Rightarrow> store \<Rightarrow> bool" where
  "seed_inv R C g h0 X h =
     (frame h0 g h \<and> shape R C (arr h g) \<and>
      (\<forall>i j. 0 \<le> i \<and> i < R \<and> 0 \<le> j \<and> j < C \<longrightarrow>
         cell (arr h g) i j = (if (i, j) \<in> X then 1 else cell (arr h0 g) i j)))"

text \<open>
  The reference the copy-then-modify loop is compared with, written from the
  specification's words: the count of ALIVE cells among the eight cells at row\<plusminus>1,
  col\<plusminus>1, each index taken modulo the row and column count, the cell itself excluded;
  the four-case rule; and the next generation with every cell recomputed from scratch.
\<close>

definition offsets_ref :: "(int \<times> int) list" where
  "offsets_ref = [(- 1, - 1), (- 1, 0), (- 1, 1), (0, - 1), (0, 1), (1, - 1), (1, 0), (1, 1)]"

definition count_live_neighbors_ref :: "int \<Rightarrow> int \<Rightarrow> ndarray \<Rightarrow> int \<Rightarrow> int \<Rightarrow> int" where
  "count_live_neighbors_ref R C a i j =
     int (length (filter (\<lambda>(di, dj). cell a ((i + di) mod R) ((j + dj) mod C) = 1) offsets_ref))"

definition next_state_ref :: "int \<Rightarrow> int \<Rightarrow> int" where
  "next_state_ref v n =
     (if v = 1 \<and> (n < 2 \<or> n > 3) then 0
      else if v = 1 \<and> (n = 2 \<or> n = 3) then 1
      else if v = 0 \<and> n = 3 then 1
      else 0)"

definition advance_ref :: "int \<Rightarrow> int \<Rightarrow> ndarray \<Rightarrow> ndarray" where
  "advance_ref R C a =
     map (\<lambda>i. map (\<lambda>j. next_state_ref (cell a i j) (count_live_neighbors_ref R C a i j)) [0..C - 1])
       [0..R - 1]"

text \<open>
  The positions of the eight cells that \<open>neighbors\<close> reads for the cell \<open>(i, j)\<close>, in the
  order of the generator.
\<close>

definition neighbor_coords :: "int \<Rightarrow> int \<Rightarrow> int \<Rightarrow> int \<Rightarrow> (int \<times> int) list" where
  "neighbor_coords R C i j = map (\<lambda>(di, dj). ((i + di) mod R, (j + dj) mod C)) offsets"

text \<open>
  Indicators of a single index and of the three indices around an index. The horizontal
  blinker at row \<open>r\<close>, columns \<open>c - 1, c, c + 1\<close> is the grid whose cell \<open>(x, y)\<close> is
  \<open>single r x * triple c y\<close>; the vertical one is \<open>triple r x * single c y\<close>.
\<close>

definition single :: "int \<Rightarrow> int \<Rightarrow> int" where
  "single r x = (if x = r then 1 else 0)"

definition triple :: "int \<Rightarrow> int \<Rightarrow> int" where
  "triple c y = (if c - 1 \<le> y \<and> y \<le> c + 1 then 1 else 0)"

section \<open>Reading and writing arrays in range\<close>

lemma offsets_simp:
  "offsets = [(- 1, - 1), (- 1, 0), (- 1, 1), (0, - 1), (0, 1), (1, - 1), (1, 0), (1, 1)]"
  by (simp add: offsets_def)

lemma index_ok: "0 \<le> i \<Longrightarrow> i < int n \<Longrightarrow> index n i = Inr (nat i)"
  by (simp add: index_def)

lemma shape_row: "shape R C a \<Longrightarrow> 0 \<le> i \<Longrightarrow> i < R \<Longrightarrow> int (length (a ! nat i)) = C"
  by (auto simp: shape_def list_all_length)

lemma shape_rows: "shape R C a \<Longrightarrow> int (length a) = R"
  by (simp add: shape_def)

lemma getitem_ok:
  assumes "shape R C a" "0 \<le> i" "i < R" "0 \<le> j" "j < C"
  shows "getitem a i j = Inr (cell a i j)"
proof -
  have r: "index (length a) i = Inr (nat i)"
    using assms by (simp add: index_ok shape_rows)
  have c: "index (length (a ! nat i)) j = Inr (nat j)"
    using assms shape_row [of R C a i] by (simp add: index_ok)
  show ?thesis by (simp add: getitem_def r c cell_def)
qed

lemma setitem_ok:
  assumes "shape R C a" "0 \<le> i" "i < R" "0 \<le> j" "j < C"
  shows "setitem a i j v = Inr (put a i j v)"
proof -
  have r: "index (length a) i = Inr (nat i)"
    using assms by (simp add: index_ok shape_rows)
  have c: "index (length (a ! nat i)) j = Inr (nat j)"
    using assms shape_row [of R C a i] by (simp add: index_ok)
  show ?thesis by (simp add: setitem_def r c put_def)
qed

lemma shape_put: "shape R C a \<Longrightarrow> shape R C (put a i j v)"
proof (cases "nat i < length a")
  case True
  assume "shape R C a"
  then show ?thesis
    using True by (auto simp: shape_def put_def list_all_length nth_list_update)
next
  case False
  assume "shape R C a"
  then show ?thesis
    using False by (simp add: put_def list_update_beyond not_less)
qed

lemma cell_put:
  assumes "shape R C a" "0 \<le> i" "i < R" "0 \<le> j" "j < C" "0 \<le> i'" "0 \<le> j'"
  shows "cell (put a i j v) i' j' = (if i' = i \<and> j' = j then v else cell a i' j')"
proof -
  have li: "nat i < length a" using assms by (auto simp: shape_def)
  have lj: "nat j < length (a ! nat i)" using assms shape_row [of R C a i] by auto
  have ni: "nat i = nat i' \<longleftrightarrow> i' = i" using assms by auto
  have nj: "nat j = nat j' \<longleftrightarrow> j' = j" using assms by auto
  show ?thesis
  proof (cases "i' = i")
    case True
    then show ?thesis
      using li lj nj by (simp add: cell_def put_def nth_list_update)
  next
    case False
    then show ?thesis
      using li ni by (simp add: cell_def put_def nth_list_update)
  qed
qed

lemma shape_ext:
  assumes "shape R C a" "shape R C b"
    and "\<And>i j. 0 \<le> i \<Longrightarrow> i < R \<Longrightarrow> 0 \<le> j \<Longrightarrow> j < C \<Longrightarrow> cell a i j = cell b i j"
  shows "a = b"
proof (rule nth_equalityI)
  show "length a = length b" using assms by (simp add: shape_def)
next
  fix k assume k: "k < length a"
  have la: "int (length (a ! k)) = C" using assms(1) k by (simp add: shape_def list_all_length)
  have lb: "int (length (b ! k)) = C" using assms(1,2) k by (simp add: shape_def list_all_length)
  show "a ! k = b ! k"
  proof (rule nth_equalityI)
    show "length (a ! k) = length (b ! k)" using la lb by simp
  next
    fix m assume m: "m < length (a ! k)"
    have "cell a (int k) (int m) = cell b (int k) (int m)"
      using assms(1) k m la by (intro assms(3)) (auto simp: shape_def)
    then show "a ! k ! m = b ! k ! m" by (simp add: cell_def)
  qed
qed

lemma py_sum_ok:
  "(\<And>x. x \<in> set xs \<Longrightarrow> f x = Inr (f' x)) \<Longrightarrow> py_sum f xs acc = Inr (acc + sum_list (map f' xs))"
  by (induction xs arbitrary: acc) (simp_all add: add.assoc)

lemma neighbor_cell_ok:
  assumes "shape R C (arr h g)" "0 \<le> i" "i < R" "0 \<le> j" "j < C"
  shows "neighbor_cell R C h g i j (di, dj) = Inr (cell (arr h g) ((i + di) mod R) ((j + dj) mod C))"
proof -
  have R: "0 < R" and C: "0 < C" using assms by auto
  have "load h g ((i + di) mod R) ((j + dj) mod C) = Inr (cell (arr h g) ((i + di) mod R) ((j + dj) mod C))"
    unfolding load_def by (rule getitem_ok [OF assms(1)]) (simp_all add: R C)
  then show ?thesis using R C by (simp add: neighbor_cell_def py_mod_def)
qed

lemma neighbors_ok:
  assumes "shape R C (arr h g)" "0 \<le> i" "i < R" "0 \<le> j" "j < C"
  shows "neighbors R C h g i j = Inr (count R C (arr h g) i j)"
proof -
  have "py_sum (neighbor_cell R C h g i j) offsets 0 =
        Inr (0 + sum_list (map (\<lambda>(di, dj). cell (arr h g) ((i + di) mod R) ((j + dj) mod C)) offsets))"
    by (rule py_sum_ok) (auto simp: neighbor_cell_ok [OF assms])
  then show ?thesis by (simp add: neighbors_def count_def)
qed

section \<open>The loops of \<open>update\<close>\<close>

lemma for_each_inv_gen:
  assumes "P X s"
    and "\<And>x X s. x \<in> set xs \<Longrightarrow> P X s \<Longrightarrow> \<exists>s'. body x s = Inr s' \<and> P (insert x X) s'"
  shows "\<exists>s'. for_each body xs s = Inr s' \<and> P (X \<union> set xs) s'"
  using assms
proof (induction xs arbitrary: X s)
  case Nil
  then show ?case by simp
next
  case (Cons x xs)
  from Cons.prems obtain s1 where s1: "body x s = Inr s1" "P (insert x X) s1"
    by (meson list.set_intros(1))
  have "\<exists>s'. for_each body xs s1 = Inr s' \<and> P (insert x X \<union> set xs) s'"
    by (rule Cons.IH [OF s1(2)]) (simp add: Cons.prems(2))
  then show ?case using s1 by simp
qed

lemma for_each_inv:
  assumes "P {} s"
    and "\<And>x X s. x \<in> set xs \<Longrightarrow> P X s \<Longrightarrow> \<exists>s'. body x s = Inr s' \<and> P (insert x X) s'"
  shows "\<exists>s'. for_each body xs s = Inr s' \<and> P (set xs) s'"
  using for_each_inv_gen [of P "{}" s xs body] assms by simp

lemma set_py_range: "set (py_range n) = {i. 0 \<le> i \<and> i < n}"
  by (auto simp: py_range_def)

lemma next_cell_idem: "next_cell v n (next_cell v n k) = next_cell v n k"
  by (auto simp: next_cell_def)

lemma store_cell_ok:
  assumes "shape R C (arr h p)" "0 \<le> i" "i < R" "0 \<le> j" "j < C"
  shows "store_cell p i j v h = Inr (h\<lparr>arr := (arr h)(p := put (arr h p) i j v)\<rparr>)"
  by (simp add: store_cell_def setitem_ok [OF assms])

lemma apply_rules_ok:
  assumes g: "shape R C (arr h g)" and ng: "shape R C (arr h ng)" and ne: "g \<noteq> ng"
    and ij: "0 \<le> i" "i < R" "0 \<le> j" "j < C"
  shows "\<exists>h'. apply_rules R C g ng i j h = Inr h' \<and> frame h ng h' \<and> shape R C (arr h' ng) \<and>
           (\<forall>i' j'. 0 \<le> i' \<and> 0 \<le> j' \<longrightarrow>
              cell (arr h' ng) i' j' =
                (if i' = i \<and> j' = j
                 then next_cell (cell (arr h g) i j) (count R C (arr h g) i j) (cell (arr h ng) i j)
                 else cell (arr h ng) i' j'))"
proof -
  have n: "neighbors R C h g i j = Inr (count R C (arr h g) i j)"
    by (rule neighbors_ok [OF g ij])
  have v: "load h g i j = Inr (cell (arr h g) i j)"
    unfolding load_def by (rule getitem_ok [OF g ij])
  have w: "\<And>v. store_cell ng i j v h = Inr (h\<lparr>arr := (arr h)(ng := put (arr h ng) i j v)\<rparr>)"
    by (rule store_cell_ok [OF ng ij])
  have c: "\<And>v i' j'. 0 \<le> i' \<Longrightarrow> 0 \<le> j' \<Longrightarrow>
             cell (put (arr h ng) i j v) i' j' = (if i' = i \<and> j' = j then v else cell (arr h ng) i' j')"
    by (rule cell_put [OF ng ij])
  show ?thesis
    by (auto simp: apply_rules_def n v w frame_def shape_put [OF ng] ng c next_cell_def)
qed

lemma frame_refl: "frame h ng h"
  by (simp add: frame_def)

lemma frame_trans: "frame h ng h1 \<Longrightarrow> frame h1 ng h2 \<Longrightarrow> frame h ng h2"
  by (simp add: frame_def)

lemma row_loop:
  assumes g: "shape R C (arr h0 g)" and ng: "shape R C (arr h0 ng)" and ne: "g \<noteq> ng"
    and i: "0 \<le> i" "i < R"
  shows "\<exists>h'. for_each (\<lambda>j. apply_rules R C g ng i j) (py_range C) h0 = Inr h' \<and>
           row_inv R C (arr h0 g) ng h0 i (set (py_range C)) h'"
proof (rule for_each_inv)
  show "row_inv R C (arr h0 g) ng h0 i {} h0"
    by (simp add: row_inv_def frame_refl ng)
next
  fix x X h
  assume x: "x \<in> set (py_range C)" and inv: "row_inv R C (arr h0 g) ng h0 i X h"
  have xr: "0 \<le> x" "x < C" using x by (simp_all add: set_py_range)
  have fr: "frame h0 ng h" and sh: "shape R C (arr h ng)" using inv by (simp_all add: row_inv_def)
  have same: "arr h g = arr h0 g" using fr ne by (simp add: frame_def)
  have g': "shape R C (arr h g)" using g same by simp
  from apply_rules_ok [OF g' sh ne i xr]
  obtain h' where h': "apply_rules R C g ng i x h = Inr h'" "frame h ng h'" "shape R C (arr h' ng)"
    and cells: "\<And>i' j'. 0 \<le> i' \<Longrightarrow> 0 \<le> j' \<Longrightarrow>
              cell (arr h' ng) i' j' =
                (if i' = i \<and> j' = x
                 then next_cell (cell (arr h g) i x) (count R C (arr h g) i x) (cell (arr h ng) i x)
                 else cell (arr h ng) i' j')"
    by blast
  have old: "\<And>i' j'. 0 \<le> i' \<Longrightarrow> 0 \<le> j' \<Longrightarrow>
         cell (arr h ng) i' j' =
           (if i' = i \<and> j' \<in> X
            then next_cell (cell (arr h0 g) i' j') (count R C (arr h0 g) i' j') (cell (arr h0 ng) i' j')
            else cell (arr h0 ng) i' j')"
    using inv by (simp add: row_inv_def)
  have "row_inv R C (arr h0 g) ng h0 i (insert x X) h'"
    unfolding row_inv_def
  proof (intro conjI allI impI)
    show "frame h0 ng h'" by (rule frame_trans [OF fr h'(2)])
    show "shape R C (arr h' ng)" by (rule h'(3))
  next
    fix i' j' :: int assume "0 \<le> i' \<and> 0 \<le> j'"
    then show "cell (arr h' ng) i' j' =
      (if i' = i \<and> j' \<in> insert x X
       then next_cell (cell (arr h0 g) i' j') (count R C (arr h0 g) i' j') (cell (arr h0 ng) i' j')
       else cell (arr h0 ng) i' j')"
      using i xr by (auto simp: cells old same next_cell_idem)
  qed
  then show "\<exists>s'. apply_rules R C g ng i x h = Inr s' \<and> row_inv R C (arr h0 g) ng h0 i (insert x X) s'"
    using h'(1) by blast
qed

lemma grid_loop:
  assumes g: "shape R C (arr h0 g)" and ng: "shape R C (arr h0 ng)" and ne: "g \<noteq> ng"
  shows "\<exists>h'. for_each (\<lambda>i. for_each (\<lambda>j. apply_rules R C g ng i j) (py_range C)) (py_range R) h0 = Inr h' \<and>
           grid_inv R C (arr h0 g) ng h0 (set (py_range R)) h'"
proof (rule for_each_inv)
  show "grid_inv R C (arr h0 g) ng h0 {} h0"
    by (simp add: grid_inv_def frame_refl ng)
next
  fix x X h
  assume x: "x \<in> set (py_range R)" and inv: "grid_inv R C (arr h0 g) ng h0 X h"
  have xr: "0 \<le> x" "x < R" using x by (simp_all add: set_py_range)
  have fr: "frame h0 ng h" and sh: "shape R C (arr h ng)" using inv by (simp_all add: grid_inv_def)
  have same: "arr h g = arr h0 g" using fr ne by (simp add: frame_def)
  have g': "shape R C (arr h g)" using g same by simp
  from row_loop [OF g' sh ne xr]
  obtain h' where h': "for_each (\<lambda>j. apply_rules R C g ng x j) (py_range C) h = Inr h'"
    and row: "row_inv R C (arr h g) ng h x (set (py_range C)) h'"
    by blast
  have fr': "frame h ng h'" and sh': "shape R C (arr h' ng)" using row by (simp_all add: row_inv_def)
  have cells: "\<And>i' j'. 0 \<le> i' \<Longrightarrow> 0 \<le> j' \<Longrightarrow>
         cell (arr h' ng) i' j' =
           (if i' = x \<and> j' \<in> set (py_range C)
            then next_cell (cell (arr h g) i' j') (count R C (arr h g) i' j') (cell (arr h ng) i' j')
            else cell (arr h ng) i' j')"
    using row by (simp add: row_inv_def)
  have old: "\<And>i' j'. 0 \<le> i' \<Longrightarrow> 0 \<le> j' \<Longrightarrow> j' < C \<Longrightarrow>
         cell (arr h ng) i' j' =
           (if i' \<in> X
            then next_cell (cell (arr h0 g) i' j') (count R C (arr h0 g) i' j') (cell (arr h0 ng) i' j')
            else cell (arr h0 ng) i' j')"
    using inv by (simp add: grid_inv_def)
  have "grid_inv R C (arr h0 g) ng h0 (insert x X) h'"
    unfolding grid_inv_def
  proof (intro conjI allI impI)
    show "frame h0 ng h'" by (rule frame_trans [OF fr fr'])
    show "shape R C (arr h' ng)" by (rule sh')
  next
    fix i' j' :: int assume "0 \<le> i' \<and> 0 \<le> j' \<and> j' < C"
    then show "cell (arr h' ng) i' j' =
      (if i' \<in> insert x X
       then next_cell (cell (arr h0 g) i' j') (count R C (arr h0 g) i' j') (cell (arr h0 ng) i' j')
       else cell (arr h0 ng) i' j')"
      by (auto simp: cells old same next_cell_idem set_py_range)
  qed
  then show "\<exists>s'. for_each (\<lambda>j. apply_rules R C g ng x j) (py_range C) h = Inr s' \<and>
               grid_inv R C (arr h0 g) ng h0 (insert x X) s'"
    using h' by blast
qed

lemma update_spec:
  assumes sh: "shape R C (arr (heap s) (grid s))" and live: "grid s < fresh (heap s)"
  shows "\<exists>s'. update R C s = Inr s' \<and>
           grid s' = fresh (heap s) \<and>
           fresh (heap s') = Suc (fresh (heap s)) \<and>
           (\<forall>p. p \<noteq> fresh (heap s) \<longrightarrow> arr (heap s') p = arr (heap s) p) \<and>
           shape R C (arr (heap s') (grid s')) \<and>
           (\<forall>i j. 0 \<le> i \<and> i < R \<and> 0 \<le> j \<and> j < C \<longrightarrow>
              cell (arr (heap s') (grid s')) i j =
                next_cell (cell (arr (heap s) (grid s)) i j)
                  (count R C (arr (heap s) (grid s)) i j)
                  (cell (arr (heap s) (grid s)) i j))"
proof -
  define ng where "ng = fresh (heap s)"
  define g where "g = grid s"
  define h1 where "h1 = \<lparr>arr = (arr (heap s))(ng := arr (heap s) g), fresh = Suc ng\<rparr>"
  have cp: "np_copy (grid s) (heap s) = (ng, h1)"
    by (simp add: np_copy_def alloc_def ng_def h1_def g_def)
  have ne: "g \<noteq> ng" using live by (simp add: g_def ng_def)
  have a1: "arr h1 g = arr (heap s) g" using ne by (simp add: h1_def)
  have a2: "arr h1 ng = arr (heap s) g" by (simp add: h1_def)
  have sh': "shape R C (arr (heap s) g)" using sh by (simp add: g_def)
  have g1: "shape R C (arr h1 g)" using sh' by (simp add: a1)
  have g2: "shape R C (arr h1 ng)" using sh' by (simp add: a2)
  from grid_loop [OF g1 g2 ne]
  obtain h2 where h2: "for_each (\<lambda>i. for_each (\<lambda>j. apply_rules R C g ng i j) (py_range C)) (py_range R) h1 = Inr h2"
    and inv: "grid_inv R C (arr h1 g) ng h1 (set (py_range R)) h2"
    by blast
  have upd: "update R C s = Inr \<lparr>heap = h2, grid = ng\<rparr>"
    using h2 by (simp add: update_def cp g_def)
  have cells: "\<And>i j. 0 \<le> i \<Longrightarrow> i < R \<Longrightarrow> 0 \<le> j \<Longrightarrow> j < C \<Longrightarrow>
      cell (arr h2 ng) i j =
        next_cell (cell (arr (heap s) g) i j) (count R C (arr (heap s) g) i j) (cell (arr (heap s) g) i j)"
    using inv by (simp add: grid_inv_def a1 a2 set_py_range)
  have fr: "frame h1 ng h2" using inv by (simp add: grid_inv_def)
  show ?thesis
  proof (intro exI conjI allI impI)
    show "update R C s = Inr \<lparr>heap = h2, grid = ng\<rparr>" by (rule upd)
    show "grid \<lparr>heap = h2, grid = ng\<rparr> = fresh (heap s)" by (simp add: ng_def)
    show "fresh (heap \<lparr>heap = h2, grid = ng\<rparr>) = Suc (fresh (heap s))"
      using fr by (simp add: frame_def h1_def ng_def)
    show "shape R C (arr (heap \<lparr>heap = h2, grid = ng\<rparr>) (grid \<lparr>heap = h2, grid = ng\<rparr>))"
      using inv by (simp add: grid_inv_def)
  next
    fix p assume "p \<noteq> fresh (heap s)"
    then show "arr (heap \<lparr>heap = h2, grid = ng\<rparr>) p = arr (heap s) p"
      using fr by (simp add: frame_def h1_def ng_def)
  next
    fix i j :: int assume "0 \<le> i \<and> i < R \<and> 0 \<le> j \<and> j < C"
    then show "cell (arr (heap \<lparr>heap = h2, grid = ng\<rparr>) (grid \<lparr>heap = h2, grid = ng\<rparr>)) i j =
                next_cell (cell (arr (heap s) (grid s)) i j)
                  (count R C (arr (heap s) (grid s)) i j)
                  (cell (arr (heap s) (grid s)) i j)"
      using cells [of i j] by (simp add: g_def)
  qed
qed

section \<open>Binary grids, creation and seeding\<close>

lemma binary_cell:
  assumes "shape R C a" "binary a" "0 \<le> i" "i < R" "0 \<le> j" "j < C"
  shows "cell a i j = 0 \<or> cell a i j = 1"
proof -
  have i: "nat i < length a" using assms by (auto simp: shape_def)
  have j: "nat j < length (a ! nat i)" using assms shape_row [of R C a i] by auto
  show ?thesis
    using assms(2) i j by (auto simp: binary_def cell_def list_all_length)
qed

lemma binaryI:
  assumes "shape R C a"
    and "\<And>i j. 0 \<le> i \<Longrightarrow> i < R \<Longrightarrow> 0 \<le> j \<Longrightarrow> j < C \<Longrightarrow> cell a i j = 0 \<or> cell a i j = 1"
  shows "binary a"
  unfolding binary_def list_all_length
proof (intro allI impI)
  fix k m assume k: "k < length a" and m: "m < length (a ! k)"
  have "int (length (a ! k)) = C" using assms(1) k by (simp add: shape_def list_all_length)
  then have "cell a (int k) (int m) = 0 \<or> cell a (int k) (int m) = 1"
    using assms(1) k m by (intro assms(2)) (auto simp: shape_def)
  then show "a ! k ! m = 0 \<or> a ! k ! m = 1" by (simp add: cell_def)
qed

lemma zeros_ok:
  assumes "0 \<le> rows" "0 \<le> cols"
  shows "zeros rows cols = Inr (replicate (nat rows) (replicate (nat cols) 0))"
  using assms by (simp add: zeros_def)

lemma shape_replicate: "0 \<le> rows \<Longrightarrow> 0 \<le> cols \<Longrightarrow> shape rows cols (replicate (nat rows) (replicate (nat cols) v))"
  by (simp add: shape_def list_all_length)

lemma cell_replicate:
  "0 \<le> i \<Longrightarrow> i < rows \<Longrightarrow> 0 \<le> j \<Longrightarrow> j < cols \<Longrightarrow>
   cell (replicate (nat rows) (replicate (nat cols) v)) i j = v"
  by (simp add: cell_def)

lemma seed_cell_ok:
  assumes sh: "shape R C (arr h g)"
  shows "\<exists>h'. seed_cell R C g (i, j) h = Inr h' \<and> frame h g h' \<and> shape R C (arr h' g) \<and>
           (\<forall>i' j'. 0 \<le> i' \<and> i' < R \<and> 0 \<le> j' \<and> j' < C \<longrightarrow>
              cell (arr h' g) i' j' = (if (i', j') = (i, j) then 1 else cell (arr h g) i' j'))"
proof (cases "(0 \<le> i \<and> i < R) \<and> (0 \<le> j \<and> j < C)")
  case True
  then have ij: "0 \<le> i" "i < R" "0 \<le> j" "j < C" by simp_all
  have w: "store_cell g i j 1 h = Inr (h\<lparr>arr := (arr h)(g := put (arr h g) i j 1)\<rparr>)"
    by (rule store_cell_ok [OF sh ij])
  have c: "\<And>i' j'. 0 \<le> i' \<Longrightarrow> 0 \<le> j' \<Longrightarrow>
             cell (put (arr h g) i j 1) i' j' = (if i' = i \<and> j' = j then 1 else cell (arr h g) i' j')"
    by (rule cell_put [OF sh ij])
  show ?thesis
    using True by (simp add: seed_cell_def w frame_def shape_put [OF sh] c)
next
  case False
  then have "seed_cell R C g (i, j) h = Inr h"
    by (auto simp: seed_cell_def)
  then show ?thesis
    using False sh by (auto simp: frame_refl)
qed

lemma seed_ok:
  assumes sh: "shape R C (arr h g)"
  shows "\<exists>h'. seed R C g cells h = Inr h' \<and> seed_inv R C g h (set cells) h'"
  unfolding seed_def
proof (rule for_each_inv)
  show "seed_inv R C g h {} h"
    by (simp add: seed_inv_def frame_refl sh)
next
  fix x :: "int \<times> int" and X h1
  assume inv: "seed_inv R C g h X h1"
  obtain i j :: int where x: "x = (i, j)" by (cases x)
  have sh1: "shape R C (arr h1 g)" and fr: "frame h g h1" using inv by (simp_all add: seed_inv_def)
  from seed_cell_ok [OF sh1, of i j]
  obtain h' where h': "seed_cell R C g (i, j) h1 = Inr h'" "frame h1 g h'" "shape R C (arr h' g)"
    and cells: "\<And>i' j'. 0 \<le> i' \<Longrightarrow> i' < R \<Longrightarrow> 0 \<le> j' \<Longrightarrow> j' < C \<Longrightarrow>
              cell (arr h' g) i' j' = (if (i', j') = (i, j) then 1 else cell (arr h1 g) i' j')"
    by blast
  have old: "\<And>i' j'. 0 \<le> i' \<Longrightarrow> i' < R \<Longrightarrow> 0 \<le> j' \<Longrightarrow> j' < C \<Longrightarrow>
              cell (arr h1 g) i' j' = (if (i', j') \<in> X then 1 else cell (arr h g) i' j')"
    using inv by (simp add: seed_inv_def)
  have "seed_inv R C g h (insert x X) h'"
    unfolding seed_inv_def
  proof (intro conjI allI impI)
    show "frame h g h'" by (rule frame_trans [OF fr h'(2)])
    show "shape R C (arr h' g)" by (rule h'(3))
  next
    fix i' j' :: int assume "0 \<le> i' \<and> i' < R \<and> 0 \<le> j' \<and> j' < C"
    then show "cell (arr h' g) i' j' = (if (i', j') \<in> insert x X then 1 else cell (arr h g) i' j')"
      by (auto simp: cells old x)
  qed
  then show "\<exists>s'. seed_cell R C g x h1 = Inr s' \<and> seed_inv R C g h (insert x X) s'"
    using h'(1) x by blast
qed

lemma np_zeros_ok:
  assumes "0 \<le> rows" "0 \<le> cols"
  shows "np_zeros rows cols h =
           Inr (fresh h, \<lparr>arr = (arr h)(fresh h := replicate (nat rows) (replicate (nat cols) 0)),
                          fresh = Suc (fresh h)\<rparr>)"
  by (simp add: np_zeros_def zeros_ok [OF assms] alloc_def)

lemma count_bounds:
  assumes sh: "shape R C a" and bin: "binary a" and R: "0 < R" and C: "0 < C"
  shows "0 \<le> count R C a i j \<and> count R C a i j \<le> 8"
proof -
  have b: "\<And>x y. 0 \<le> cell a (x mod R) (y mod C) \<and> cell a (x mod R) (y mod C) \<le> 1"
  proof -
    fix x y
    have "cell a (x mod R) (y mod C) = 0 \<or> cell a (x mod R) (y mod C) = 1"
      by (rule binary_cell [OF sh bin]) (simp_all add: R C)
    then show "0 \<le> cell a (x mod R) (y mod C) \<and> cell a (x mod R) (y mod C) \<le> 1" by auto
  qed
  show ?thesis
    unfolding count_def offsets_simp
    using b [of "i + - 1" "j + - 1"] b [of "i + - 1" "j + 0"] b [of "i + - 1" "j + 1"]
      b [of "i + 0" "j + - 1"] b [of "i + 0" "j + 1"]
      b [of "i + 1" "j + - 1"] b [of "i + 1" "j + 0"] b [of "i + 1" "j + 1"]
    by simp
qed

lemma next_cell_binary:
  "v = 0 \<or> v = 1 \<Longrightarrow> next_cell v n v = 0 \<or> next_cell v n v = 1"
  by (auto simp: next_cell_def)

lemma load_ok:
  assumes "shape R C (arr h g)" "0 \<le> i" "i < R" "0 \<le> j" "j < C"
  shows "load h g i j = Inr (cell (arr h g) i j)"
  unfolding load_def by (rule getitem_ok [OF assms])

lemma update_binary:
  assumes sh: "shape R C (arr (heap s) (grid s))" and bin: "binary (arr (heap s) (grid s))"
    and live: "grid s < fresh (heap s)"
  shows "\<exists>s'. update R C s = Inr s' \<and> shape R C (arr (heap s') (grid s')) \<and>
           binary (arr (heap s') (grid s')) \<and> grid s' < fresh (heap s')"
proof -
  from update_spec [OF sh live]
  obtain s' where u: "update R C s = Inr s'" and g: "grid s' = fresh (heap s)"
    and f: "fresh (heap s') = Suc (fresh (heap s))"
    and sh': "shape R C (arr (heap s') (grid s'))"
    and cells: "\<And>i j. 0 \<le> i \<Longrightarrow> i < R \<Longrightarrow> 0 \<le> j \<Longrightarrow> j < C \<Longrightarrow>
              cell (arr (heap s') (grid s')) i j =
                next_cell (cell (arr (heap s) (grid s)) i j)
                  (count R C (arr (heap s) (grid s)) i j)
                  (cell (arr (heap s) (grid s)) i j)"
    by blast
  have "binary (arr (heap s') (grid s'))"
  proof (rule binaryI [OF sh'])
    fix i j :: int assume ij: "0 \<le> i" "i < R" "0 \<le> j" "j < C"
    show "cell (arr (heap s') (grid s')) i j = 0 \<or> cell (arr (heap s') (grid s')) i j = 1"
      unfolding cells [OF ij] by (rule next_cell_binary) (rule binary_cell [OF sh bin ij])
  qed
  then show ?thesis using u sh' g f by simp
qed

lemma animate_ok:
  assumes "shape R C (arr (heap s) (grid s))" "binary (arr (heap s) (grid s))"
    "grid s < fresh (heap s)"
  shows "\<exists>s'. animate R C n s = Inr s' \<and> shape R C (arr (heap s') (grid s')) \<and>
           binary (arr (heap s') (grid s')) \<and> grid s' < fresh (heap s')"
  using assms
proof (induction n arbitrary: s)
  case 0
  then show ?case by simp
next
  case (Suc n)
  from update_binary [OF Suc.prems]
  obtain s1 where s1: "update R C s = Inr s1" "shape R C (arr (heap s1) (grid s1))"
    "binary (arr (heap s1) (grid s1))" "grid s1 < fresh (heap s1)"
    by blast
  from Suc.IH [OF s1(2-4)] show ?case using s1(1) by simp
qed

lemma run_simulation_ok:
  assumes R: "0 \<le> R" and C: "0 \<le> C"
  shows "\<exists>s. run_simulation R C cells h = Inr s \<and> grid s = fresh h \<and>
           fresh (heap s) = Suc (fresh h) \<and>
           (\<forall>p. p \<noteq> fresh h \<longrightarrow> arr (heap s) p = arr h p) \<and>
           shape R C (arr (heap s) (grid s)) \<and>
           (\<forall>i j. 0 \<le> i \<and> i < R \<and> 0 \<le> j \<and> j < C \<longrightarrow>
              cell (arr (heap s) (grid s)) i j = (if (i, j) \<in> set cells then 1 else 0))"
proof -
  define g where "g = fresh h"
  define h1 where "h1 = \<lparr>arr = (arr h)(g := replicate (nat R) (replicate (nat C) 0)), fresh = Suc g\<rparr>"
  have z: "np_zeros R C h = Inr (g, h1)"
    by (simp add: np_zeros_ok [OF R C] g_def h1_def)
  have a1: "arr h1 g = replicate (nat R) (replicate (nat C) 0)" by (simp add: h1_def)
  have sh1: "shape R C (arr h1 g)" unfolding a1 by (rule shape_replicate [OF R C])
  from seed_ok [OF sh1, of cells]
  obtain h2 where h2: "seed R C g cells h1 = Inr h2" and inv: "seed_inv R C g h1 (set cells) h2"
    by blast
  have run: "run_simulation R C cells h = Inr \<lparr>heap = h2, grid = g\<rparr>"
    by (simp add: run_simulation_def z h2)
  have fr: "frame h1 g h2" and sh2: "shape R C (arr h2 g)" using inv by (simp_all add: seed_inv_def)
  have cells: "\<And>i j. 0 \<le> i \<Longrightarrow> i < R \<Longrightarrow> 0 \<le> j \<Longrightarrow> j < C \<Longrightarrow>
      cell (arr h2 g) i j = (if (i, j) \<in> set cells then 1 else 0)"
    using inv by (simp add: seed_inv_def a1 cell_replicate)
  show ?thesis
  proof (intro exI conjI allI impI)
    show "run_simulation R C cells h = Inr \<lparr>heap = h2, grid = g\<rparr>" by (rule run)
    show "grid \<lparr>heap = h2, grid = g\<rparr> = fresh h" by (simp add: g_def)
    show "fresh (heap \<lparr>heap = h2, grid = g\<rparr>) = Suc (fresh h)"
      using fr by (simp add: frame_def h1_def g_def)
    show "shape R C (arr (heap \<lparr>heap = h2, grid = g\<rparr>) (grid \<lparr>heap = h2, grid = g\<rparr>))"
      using sh2 by simp
  next
    fix p assume "p \<noteq> fresh h"
    then show "arr (heap \<lparr>heap = h2, grid = g\<rparr>) p = arr h p"
      using fr by (simp add: frame_def h1_def g_def)
  next
    fix i j :: int assume "0 \<le> i \<and> i < R \<and> 0 \<le> j \<and> j < C"
    then show "cell (arr (heap \<lparr>heap = h2, grid = g\<rparr>) (grid \<lparr>heap = h2, grid = g\<rparr>)) i j =
        (if (i, j) \<in> set cells then 1 else 0)"
      using cells [of i j] by simp
  qed
qed

lemma run_simulation_binary:
  assumes R: "0 \<le> R" and C: "0 \<le> C"
  shows "\<exists>s. run_simulation R C cells h = Inr s \<and> shape R C (arr (heap s) (grid s)) \<and>
           binary (arr (heap s) (grid s)) \<and> grid s < fresh (heap s)"
proof -
  from run_simulation_ok [OF R C, of cells h]
  obtain s where s: "run_simulation R C cells h = Inr s" "grid s = fresh h"
    "fresh (heap s) = Suc (fresh h)" "shape R C (arr (heap s) (grid s))"
    and cells: "\<And>i j. 0 \<le> i \<Longrightarrow> i < R \<Longrightarrow> 0 \<le> j \<Longrightarrow> j < C \<Longrightarrow>
              cell (arr (heap s) (grid s)) i j = (if (i, j) \<in> set cells then 1 else 0)"
    by blast
  have "binary (arr (heap s) (grid s))"
    by (rule binaryI [OF s(4)]) (simp add: cells)
  then show ?thesis using s by simp
qed

lemma seed_filter:
  "seed R C g (filter (\<lambda>(i, j). 0 \<le> i \<and> i < R \<and> 0 \<le> j \<and> j < C) cells) h = seed R C g cells h"
  unfolding seed_def
proof (induction cells arbitrary: h)
  case Nil
  then show ?case by simp
next
  case (Cons x xs)
  obtain i j where x: "x = (i, j)" by (cases x)
  show ?case
  proof (cases "(0 \<le> i \<and> i < R) \<and> (0 \<le> j \<and> j < C)")
    case True
    then show ?thesis by (simp add: x Cons.IH split: sum.splits)
  next
    case False
    then have "seed_cell R C g (i, j) h = Inr h" by (auto simp: seed_cell_def)
    then show ?thesis using False by (simp add: x Cons.IH)
  qed
qed

section \<open>The properties\<close>

text \<open>
  C2. \<open>update\<close> does not write to the array it is given. The new generation is a new
  object, at an address that was not in use before the call (\<open>fresh\<close>), different from
  the address of the input; after the call the array at the input's address, and every
  other array that existed before the call, is what it was. A caller that kept the
  reference to the previous generation can still read and compare it.
\<close>

theorem update_leaves_input_unchanged:
  assumes sh: "shape R C (arr (heap s) (grid s))" and live: "grid s < fresh (heap s)"
  shows "\<exists>s'. update R C s = Inr s' \<and>
           arr (heap s') (grid s) = arr (heap s) (grid s) \<and>
           (\<forall>p. p < fresh (heap s) \<longrightarrow> arr (heap s') p = arr (heap s) p) \<and>
           grid s' = fresh (heap s) \<and> grid s' \<noteq> grid s \<and> grid s' < fresh (heap s')"
proof -
  from update_spec [OF sh live]
  obtain s' where u: "update R C s = Inr s'" and g: "grid s' = fresh (heap s)"
    and f: "fresh (heap s') = Suc (fresh (heap s))"
    and old: "\<And>p. p \<noteq> fresh (heap s) \<Longrightarrow> arr (heap s') p = arr (heap s) p"
    by blast
  have "arr (heap s') (grid s) = arr (heap s) (grid s)"
    using live by (intro old) simp
  moreover have "\<forall>p. p < fresh (heap s) \<longrightarrow> arr (heap s') p = arr (heap s) p"
    by (simp add: old)
  ultimately show ?thesis
    using u g f live by auto
qed

theorem update_leaves_input_unchanged_witness:
  "shape 2 3 [[0, 1, 0], [1, 1, 1]] \<and>
   (\<exists>s'. update 2 3 \<lparr>heap = \<lparr>arr = (\<lambda>p. [[0, 1, 0], [1, 1, 1]]), fresh = 1\<rparr>, grid = 0\<rparr> = Inr s' \<and>
         arr (heap s') 0 = [[0, 1, 0], [1, 1, 1]] \<and> grid s' = 1)"
proof -
  let ?S = "\<lparr>heap = \<lparr>arr = (\<lambda>p. [[0, 1, 0], [1, 1, 1]]), fresh = 1\<rparr>, grid = 0\<rparr>"
  have sh: "shape 2 3 (arr (heap ?S) (grid ?S))" and live: "grid ?S < fresh (heap ?S)"
    by (simp_all add: shape_def)
  from update_leaves_input_unchanged [OF sh live] sh show ?thesis
    by auto
qed

text \<open>
  C5. On a grid of shape \<open>(R, C)\<close> and for every list of coordinate pairs, the seeding
  loop raises nothing; afterwards a cell \<open>(i, j)\<close> of the grid reads 1 (ALIVE) if the pair
  \<open>(i, j)\<close> is in the list and reads what it read before otherwise, so the cells set are
  exactly the listed pairs inside \<open>[0, R) \<times> [0, C)\<close>. Pairs outside that range are ignored:
  dropping them from the list gives the same store. The shape of the grid and every
  other array are unchanged.
\<close>

theorem seed_sets_in_range_cells:
  assumes sh: "shape R C (arr h g)"
  shows "\<exists>h'. seed R C g cells h = Inr h' \<and>
           seed R C g (filter (\<lambda>(i, j). 0 \<le> i \<and> i < R \<and> 0 \<le> j \<and> j < C) cells) h = Inr h' \<and>
           shape R C (arr h' g) \<and>
           (\<forall>p. p \<noteq> g \<longrightarrow> arr h' p = arr h p) \<and>
           (\<forall>i j. 0 \<le> i \<and> i < R \<and> 0 \<le> j \<and> j < C \<longrightarrow>
              load h' g i j = (if (i, j) \<in> set cells then Inr 1 else load h g i j))"
proof -
  from seed_ok [OF sh, of cells]
  obtain h' where s: "seed R C g cells h = Inr h'" and inv: "seed_inv R C g h (set cells) h'"
    by blast
  have sh': "shape R C (arr h' g)" and fr: "frame h g h'"
    using inv by (simp_all add: seed_inv_def)
  have "load h' g i j = (if (i, j) \<in> set cells then Inr 1 else load h g i j)"
    if "0 \<le> i \<and> i < R \<and> 0 \<le> j \<and> j < C" for i j
  proof -
    have ij: "0 \<le> i" "i < R" "0 \<le> j" "j < C" using that by simp_all
    have "cell (arr h' g) i j = (if (i, j) \<in> set cells then 1 else cell (arr h g) i j)"
      using inv that by (simp add: seed_inv_def)
    then show ?thesis
      by (simp add: load_ok [OF sh' ij] load_ok [OF sh ij])
  qed
  then show ?thesis
    using s sh' fr by (auto simp: seed_filter frame_def)
qed

theorem seed_sets_in_range_cells_witness:
  "shape 2 2 [[0, 0], [0, 0]] \<and>
   (\<exists>h'. seed 2 2 0 [(- 1, 5), (1, 0), (2, 2)] \<lparr>arr = (\<lambda>p. [[0, 0], [0, 0]]), fresh = 1\<rparr> = Inr h' \<and>
         seed 2 2 0 [(1, 0)] \<lparr>arr = (\<lambda>p. [[0, 0], [0, 0]]), fresh = 1\<rparr> = Inr h' \<and>
         load h' 0 1 0 = Inr 1 \<and> load h' 0 0 0 = Inr 0 \<and> load h' 0 1 1 = Inr 0)"
proof -
  let ?H = "\<lparr>arr = (\<lambda>p. [[0, 0], [0, 0]]), fresh = 1\<rparr> :: store"
  have sh: "shape 2 2 (arr ?H 0)" by (simp add: shape_def)
  from seed_sets_in_range_cells [OF sh, of "[(- 1, 5), (1, 0), (2, 2)]"]
  obtain h' where s: "seed 2 2 0 [(- 1, 5), (1, 0), (2, 2)] ?H = Inr h'"
    and f: "seed 2 2 0 (filter (\<lambda>(i, j). 0 \<le> i \<and> i < 2 \<and> 0 \<le> j \<and> j < 2) [(- 1, 5), (1, 0), (2, 2)]) ?H = Inr h'"
    and c: "\<And>i j. 0 \<le> i \<and> i < 2 \<and> 0 \<le> j \<and> j < 2 \<Longrightarrow>
              load h' 0 i j = (if (i, j) \<in> set [(- 1, 5), (1, 0), (2, 2)] then Inr 1 else load ?H 0 i j)"
    by blast
  have "load h' 0 1 0 = Inr 1" "load h' 0 0 0 = Inr 0" "load h' 0 1 1 = Inr 0"
    using c [of 1 0] c [of 0 0] c [of 1 1] by (simp_all add: load_def getitem_def index_def)
  then show ?thesis
    using s f sh by simp
qed

subsection \<open>Whole runs of the program\<close>

lemma simulation_ok:
  assumes R: "0 \<le> R" and C: "0 \<le> C"
  shows "\<exists>s0 sn. run_simulation R C cells h = Inr s0 \<and> animate R C n s0 = Inr sn \<and>
           shape R C (arr (heap s0) (grid s0)) \<and> binary (arr (heap s0) (grid s0)) \<and>
           shape R C (arr (heap sn) (grid sn)) \<and> binary (arr (heap sn) (grid sn))"
proof -
  from run_simulation_binary [OF R C, of cells h]
  obtain s0 where s0: "run_simulation R C cells h = Inr s0" "shape R C (arr (heap s0) (grid s0))"
    "binary (arr (heap s0) (grid s0))" "grid s0 < fresh (heap s0)"
    by blast
  from animate_ok [OF s0(2-4), of n]
  obtain sn where "animate R C n s0 = Inr sn" "shape R C (arr (heap sn) (grid sn))"
    "binary (arr (heap sn) (grid sn))"
    by blast
  then show ?thesis using s0 by blast
qed

text \<open>
  C8. The shape of the grid never changes. \<open>update\<close> on a grid of shape \<open>(R, C)\<close> returns
  a grid of shape \<open>(R, C)\<close> (and the grid it was given keeps its shape); the seeding loop
  leaves a grid of shape \<open>(R, C)\<close> at that shape; and in every run of the program, that
  is, creation, seeding and then any number \<open>n\<close> of calls of \<open>update\<close>, the grid has
  shape \<open>(R, C)\<close> after seeding and after the last call.
\<close>

theorem dimensions_never_change:
  "(shape R C (arr (heap s) (grid s)) \<and> grid s < fresh (heap s) \<longrightarrow>
      (\<exists>s'. update R C s = Inr s' \<and> shape R C (arr (heap s') (grid s')) \<and>
            shape R C (arr (heap s') (grid s)))) \<and>
   (shape R C (arr h g) \<longrightarrow>
      (\<exists>h'. seed R C g cells h = Inr h' \<and> shape R C (arr h' g))) \<and>
   (0 \<le> R \<and> 0 \<le> C \<longrightarrow>
      (\<exists>s0 sn. run_simulation R C cells h0 = Inr s0 \<and> animate R C n s0 = Inr sn \<and>
          shape R C (arr (heap s0) (grid s0)) \<and> shape R C (arr (heap sn) (grid sn))))"
proof (intro conjI impI)
  assume a: "shape R C (arr (heap s) (grid s)) \<and> grid s < fresh (heap s)"
  then have sh: "shape R C (arr (heap s) (grid s))" and live: "grid s < fresh (heap s)"
    by simp_all
  from update_spec [OF sh live]
  obtain s' where u: "update R C s = Inr s'"
    and sh': "shape R C (arr (heap s') (grid s'))"
    and old: "\<And>p. p \<noteq> fresh (heap s) \<Longrightarrow> arr (heap s') p = arr (heap s) p"
    by blast
  have "arr (heap s') (grid s) = arr (heap s) (grid s)"
    using live by (intro old) simp
  then show "\<exists>s'. update R C s = Inr s' \<and> shape R C (arr (heap s') (grid s')) \<and>
            shape R C (arr (heap s') (grid s))"
    using u sh' sh by auto
next
  assume sh: "shape R C (arr h g)"
  from seed_ok [OF sh, of cells]
  show "\<exists>h'. seed R C g cells h = Inr h' \<and> shape R C (arr h' g)"
    by (auto simp: seed_inv_def)
next
  assume "0 \<le> R \<and> 0 \<le> C"
  then have R: "0 \<le> R" and C: "0 \<le> C" by simp_all
  from simulation_ok [OF R C, of cells h0 n]
  show "\<exists>s0 sn. run_simulation R C cells h0 = Inr s0 \<and> animate R C n s0 = Inr sn \<and>
          shape R C (arr (heap s0) (grid s0)) \<and> shape R C (arr (heap sn) (grid sn))"
    by blast
qed

theorem dimensions_never_change_witness:
  "shape 2 3 [[0, 1, 0], [1, 1, 1]] \<and>
   (\<exists>s'. update 2 3 \<lparr>heap = \<lparr>arr = (\<lambda>p. [[0, 1, 0], [1, 1, 1]]), fresh = 1\<rparr>, grid = 0\<rparr> = Inr s' \<and>
         shape 2 3 (arr (heap s') (grid s'))) \<and>
   (\<exists>h'. seed 2 3 0 [(1, 1), (7, 7)] \<lparr>arr = (\<lambda>p. [[0, 1, 0], [1, 1, 1]]), fresh = 1\<rparr> = Inr h' \<and>
         shape 2 3 (arr h' 0)) \<and>
   (\<exists>s0 sn. run_simulation GRID_ROWS GRID_COLS Glider \<lparr>arr = (\<lambda>p. []), fresh = 0\<rparr> = Inr s0 \<and>
         animate GRID_ROWS GRID_COLS 1000 s0 = Inr sn \<and>
         shape GRID_ROWS GRID_COLS (arr (heap sn) (grid sn)))"
proof -
  let ?G = "[[0, 1, 0], [1, 1, 1]] :: ndarray"
  let ?H = "\<lparr>arr = (\<lambda>p. ?G), fresh = 1\<rparr>"
  let ?S = "\<lparr>heap = ?H, grid = 0\<rparr>"
  have sh: "shape 2 3 ?G" by (simp add: shape_def)
  have a: "\<exists>s'. update 2 3 ?S = Inr s' \<and> shape 2 3 (arr (heap s') (grid s'))"
    using dimensions_never_change [of 2 3 ?S ?H 0 "[]" ?H 0] sh by auto
  have b: "\<exists>h'. seed 2 3 0 [(1, 1), (7, 7)] ?H = Inr h' \<and> shape 2 3 (arr h' 0)"
    using dimensions_never_change [of 2 3 ?S ?H 0 "[(1, 1), (7, 7)]" ?H 0] sh by auto
  have c: "\<exists>s0 sn. run_simulation GRID_ROWS GRID_COLS Glider \<lparr>arr = (\<lambda>p. []), fresh = 0\<rparr> = Inr s0 \<and>
         animate GRID_ROWS GRID_COLS 1000 s0 = Inr sn \<and>
         shape GRID_ROWS GRID_COLS (arr (heap sn) (grid sn))"
    using dimensions_never_change [of GRID_ROWS GRID_COLS ?S ?H 0 Glider "\<lparr>arr = (\<lambda>p. []), fresh = 0\<rparr>" 1000]
    by (auto simp: GRID_ROWS_def GRID_COLS_def)
  show ?thesis using sh a b c by simp
qed

text \<open>
  C10. In every run of the program (creation, seeding, then any number \<open>n\<close> of calls of
  \<open>update\<close>) nothing raises, and both the seeded grid and the grid after the last call
  are binary: every cell reads 0 or 1. On such a grid every neighbour sum is an integer
  between 0 and 8.
\<close>

theorem cells_stay_binary:
  assumes R: "0 \<le> R" and C: "0 \<le> C"
  shows "\<exists>s0 sn. run_simulation R C cells h = Inr s0 \<and> animate R C n s0 = Inr sn \<and>
           binary (arr (heap s0) (grid s0)) \<and>
           shape R C (arr (heap sn) (grid sn)) \<and> binary (arr (heap sn) (grid sn)) \<and>
           (\<forall>i j. 0 \<le> i \<and> i < R \<and> 0 \<le> j \<and> j < C \<longrightarrow>
              (\<exists>v m. load (heap sn) (grid sn) i j = Inr v \<and> (v = 0 \<or> v = 1) \<and>
                     neighbors R C (heap sn) (grid sn) i j = Inr m \<and> 0 \<le> m \<and> m \<le> 8))"
proof -
  from simulation_ok [OF R C, of cells h n]
  obtain s0 sn where run: "run_simulation R C cells h = Inr s0" "animate R C n s0 = Inr sn"
    and b0: "binary (arr (heap s0) (grid s0))"
    and sh: "shape R C (arr (heap sn) (grid sn))" and bin: "binary (arr (heap sn) (grid sn))"
    by blast
  have "\<exists>v m. load (heap sn) (grid sn) i j = Inr v \<and> (v = 0 \<or> v = 1) \<and>
               neighbors R C (heap sn) (grid sn) i j = Inr m \<and> 0 \<le> m \<and> m \<le> 8"
    if "0 \<le> i \<and> i < R \<and> 0 \<le> j \<and> j < C" for i j
  proof -
    have ij: "0 \<le> i" "i < R" "0 \<le> j" "j < C" using that by simp_all
    have pos: "0 < R" "0 < C" using ij by simp_all
    show ?thesis
      using load_ok [OF sh ij] binary_cell [OF sh bin ij] neighbors_ok [OF sh ij]
        count_bounds [OF sh bin pos, of i j]
      by simp
  qed
  then show ?thesis using run b0 sh bin by blast
qed

theorem cells_stay_binary_witness:
  "(0::int) \<le> GRID_ROWS \<and> (0::int) \<le> GRID_COLS \<and>
   (\<exists>s0 sn. run_simulation GRID_ROWS GRID_COLS Toad \<lparr>arr = (\<lambda>p. []), fresh = 0\<rparr> = Inr s0 \<and>
       animate GRID_ROWS GRID_COLS 1000 s0 = Inr sn \<and>
       binary (arr (heap s0) (grid s0)) \<and> binary (arr (heap sn) (grid sn)) \<and>
       (\<exists>m. neighbors GRID_ROWS GRID_COLS (heap sn) (grid sn) 0 59 = Inr m \<and> 0 \<le> m \<and> m \<le> 8))"
proof -
  have R: "0 \<le> GRID_ROWS" and C: "0 \<le> GRID_COLS"
    by (simp_all add: GRID_ROWS_def GRID_COLS_def)
  from cells_stay_binary [OF R C, of Toad "\<lparr>arr = (\<lambda>p. []), fresh = 0\<rparr>" 1000]
  obtain s0 sn where run: "run_simulation GRID_ROWS GRID_COLS Toad \<lparr>arr = (\<lambda>p. []), fresh = 0\<rparr> = Inr s0"
      "animate GRID_ROWS GRID_COLS 1000 s0 = Inr sn"
      "binary (arr (heap s0) (grid s0))" "binary (arr (heap sn) (grid sn))"
    and n: "\<And>i j. 0 \<le> i \<and> i < GRID_ROWS \<and> 0 \<le> j \<and> j < GRID_COLS \<Longrightarrow>
              \<exists>v m. load (heap sn) (grid sn) i j = Inr v \<and> (v = 0 \<or> v = 1) \<and>
                     neighbors GRID_ROWS GRID_COLS (heap sn) (grid sn) i j = Inr m \<and> 0 \<le> m \<and> m \<le> 8"
    by blast
  have "\<exists>m. neighbors GRID_ROWS GRID_COLS (heap sn) (grid sn) 0 59 = Inr m \<and> 0 \<le> m \<and> m \<le> 8"
    using n [of 0 59] by (auto simp: GRID_ROWS_def GRID_COLS_def)
  then show ?thesis using R C run by blast
qed

subsection \<open>The reference rule\<close>

lemma sum_list_indicator:
  "(\<And>x. x \<in> set xs \<Longrightarrow> f x = 0 \<or> f x = (1::int)) \<Longrightarrow>
   sum_list (map f xs) = int (length (filter (\<lambda>x. f x = 1) xs))"
  by (induction xs) auto

lemma count_is_count_ref:
  assumes sh: "shape R C a" and bin: "binary a" and R: "0 < R" and C: "0 < C"
  shows "count R C a i j = count_live_neighbors_ref R C a i j"
proof -
  have "sum_list (map (\<lambda>(di, dj). cell a ((i + di) mod R) ((j + dj) mod C)) offsets) =
        int (length (filter (\<lambda>d. (case d of (di, dj) \<Rightarrow> cell a ((i + di) mod R) ((j + dj) mod C)) = 1) offsets))"
  proof (rule sum_list_indicator)
    fix d :: "int \<times> int"
    obtain di dj where d: "d = (di, dj)" by (cases d)
    have "cell a ((i + di) mod R) ((j + dj) mod C) = 0 \<or> cell a ((i + di) mod R) ((j + dj) mod C) = 1"
      by (rule binary_cell [OF sh bin]) (simp_all add: R C)
    then show "(case d of (di, dj) \<Rightarrow> cell a ((i + di) mod R) ((j + dj) mod C)) = 0 \<or>
               (case d of (di, dj) \<Rightarrow> cell a ((i + di) mod R) ((j + dj) mod C)) = 1"
      by (simp add: d)
  qed
  moreover have "(\<lambda>d. (case d of (di, dj) \<Rightarrow> cell a ((i + di) mod R) ((j + dj) mod C)) = 1) =
                 (\<lambda>(di, dj). cell a ((i + di) mod R) ((j + dj) mod C) = 1)"
    by auto
  ultimately show ?thesis
    by (simp add: count_def count_live_neighbors_ref_def offsets_simp offsets_ref_def)
qed

lemma next_cell_is_next_state_ref:
  "v = 0 \<or> v = 1 \<Longrightarrow> next_cell v n v = next_state_ref v n"
  by (auto simp: next_cell_def next_state_ref_def)

lemma shape_advance_ref:
  assumes "shape R C a"
  shows "shape R C (advance_ref R C a)"
proof -
  have R: "0 \<le> R" using assms by (auto simp: shape_def)
  have C: "0 \<le> C" if "0 < R"
  proof -
    have "int (length (a ! 0)) = C" using that assms by (auto simp: shape_def list_all_length)
    then show ?thesis by auto
  qed
  show ?thesis
    using R C by (cases "0 < R") (auto simp: shape_def advance_ref_def list_all_length)
qed

lemma cell_advance_ref:
  assumes "0 \<le> i" "i < R" "0 \<le> j" "j < C"
  shows "cell (advance_ref R C a) i j =
           next_state_ref (cell a i j) (count_live_neighbors_ref R C a i j)"
proof -
  have i: "nat i < length [0..R - 1]" and j: "nat j < length [0..C - 1]" using assms by simp_all
  have ni: "[0..R - 1] ! nat i = i" and nj: "[0..C - 1] ! nat j = j" using assms by simp_all
  show ?thesis
    unfolding advance_ref_def cell_def nth_map [OF i] ni nth_map [OF j] nj ..
qed

text \<open>
  C1. On a grid of shape \<open>(R, C)\<close> whose cells are all 0 or 1, \<open>update\<close> returns, and in
  the grid it returns every cell \<open>(i, j)\<close> is given by Conway's rule applied to the current
  generation only. Here \<open>v\<close> is the value of the cell \<open>(i, j)\<close> in the grid as it was before
  the call and \<open>n\<close> is the number of live cells, in that same grid, among the eight cells
  at row\<plusminus>1, col\<plusminus>1 taken modulo \<open>R\<close> and \<open>C\<close>; the count that \<open>update\<close> computes
  is this \<open>n\<close>. A live cell (\<open>v = 1\<close>) becomes 0 when \<open>n < 2\<close> or \<open>n > 3\<close> and stays 1
  otherwise (that is, when \<open>n\<close> is 2 or 3); a dead cell (\<open>v = 0\<close>) becomes 1 when \<open>n = 3\<close>
  and stays 0 otherwise.
\<close>

theorem update_applies_conway_rule:
  assumes sh: "shape R C (arr (heap s) (grid s))" and bin: "binary (arr (heap s) (grid s))"
    and live: "grid s < fresh (heap s)"
  shows "\<exists>s'. update R C s = Inr s' \<and>
           (\<forall>i j. 0 \<le> i \<and> i < R \<and> 0 \<le> j \<and> j < C \<longrightarrow>
              (\<exists>v n. v = cell (arr (heap s) (grid s)) i j \<and> (v = 0 \<or> v = 1) \<and>
                     n = count_live_neighbors_ref R C (arr (heap s) (grid s)) i j \<and>
                     load (heap s) (grid s) i j = Inr v \<and>
                     neighbors R C (heap s) (grid s) i j = Inr n \<and>
                     cell (arr (heap s') (grid s')) i j =
                       (if v = 1 then (if n < 2 \<or> n > 3 then 0 else 1)
                        else (if n = 3 then 1 else 0)) \<and>
                     load (heap s') (grid s') i j =
                       Inr (if v = 1 then (if n < 2 \<or> n > 3 then 0 else 1)
                            else (if n = 3 then 1 else 0))))"
proof -
  let ?a = "arr (heap s) (grid s)"
  from update_spec [OF sh live]
  obtain s' where u: "update R C s = Inr s'"
    and sh': "shape R C (arr (heap s') (grid s'))"
    and cells: "\<And>i j. 0 \<le> i \<Longrightarrow> i < R \<Longrightarrow> 0 \<le> j \<Longrightarrow> j < C \<Longrightarrow>
              cell (arr (heap s') (grid s')) i j =
                next_cell (cell ?a i j) (count R C ?a i j) (cell ?a i j)"
    by blast
  have "\<exists>v n. v = cell ?a i j \<and> (v = 0 \<or> v = 1) \<and>
               n = count_live_neighbors_ref R C ?a i j \<and>
               load (heap s) (grid s) i j = Inr v \<and>
               neighbors R C (heap s) (grid s) i j = Inr n \<and>
               cell (arr (heap s') (grid s')) i j =
                 (if v = 1 then (if n < 2 \<or> n > 3 then 0 else 1) else (if n = 3 then 1 else 0)) \<and>
               load (heap s') (grid s') i j =
                 Inr (if v = 1 then (if n < 2 \<or> n > 3 then 0 else 1) else (if n = 3 then 1 else 0))"
    if ij: "0 \<le> i" "i < R" "0 \<le> j" "j < C" for i j
  proof -
    have pos: "0 < R" "0 < C" using ij by simp_all
    have b: "cell ?a i j = 0 \<or> cell ?a i j = 1"
      by (rule binary_cell [OF sh bin ij])
    have cnt: "count R C ?a i j = count_live_neighbors_ref R C ?a i j"
      by (rule count_is_count_ref [OF sh bin pos])
    have new: "cell (arr (heap s') (grid s')) i j =
        (if cell ?a i j = 1
         then (if count_live_neighbors_ref R C ?a i j < 2 \<or> count_live_neighbors_ref R C ?a i j > 3
               then 0 else 1)
         else (if count_live_neighbors_ref R C ?a i j = 3 then 1 else 0))"
      unfolding cells [OF ij] cnt using b by (auto simp: next_cell_def)
    show ?thesis
      using b new load_ok [OF sh ij] load_ok [OF sh' ij] neighbors_ok [OF sh ij] cnt
      by simp
  qed
  then show ?thesis using u by blast
qed

theorem update_applies_conway_rule_witness:
  "shape 3 3 [[1, 1, 0], [1, 0, 0], [0, 0, 0]] \<and> binary [[1, 1, 0], [1, 0, 0], [0, 0, 0]] \<and>
   count_live_neighbors_ref 3 3 [[1, 1, 0], [1, 0, 0], [0, 0, 0]] 1 1 = 3 \<and>
   count_live_neighbors_ref 3 3 [[1, 1, 0], [1, 0, 0], [0, 0, 0]] 0 0 = 2 \<and>
   (\<exists>s'. update 3 3 \<lparr>heap = \<lparr>arr = (\<lambda>p. [[1, 1, 0], [1, 0, 0], [0, 0, 0]]), fresh = 1\<rparr>, grid = 0\<rparr> = Inr s' \<and>
         load (heap s') (grid s') 1 1 = Inr 1 \<and> load (heap s') (grid s') 0 0 = Inr 1)"
proof -
  let ?G = "[[1, 1, 0], [1, 0, 0], [0, 0, 0]] :: ndarray"
  let ?S = "\<lparr>heap = \<lparr>arr = (\<lambda>p. ?G), fresh = 1\<rparr>, grid = 0\<rparr>"
  have sh: "shape 3 3 (arr (heap ?S) (grid ?S))" and bin: "binary (arr (heap ?S) (grid ?S))"
    and live: "grid ?S < fresh (heap ?S)"
    by (simp_all add: shape_def binary_def)
  have n11: "count_live_neighbors_ref 3 3 ?G 1 1 = 3"
    and n00: "count_live_neighbors_ref 3 3 ?G 0 0 = 2"
    by (simp_all add: count_live_neighbors_ref_def offsets_ref_def cell_def)
  from update_applies_conway_rule [OF sh bin live]
  obtain s' where u: "update 3 3 ?S = Inr s'"
    and c: "\<And>i j. 0 \<le> i \<and> i < 3 \<and> 0 \<le> j \<and> j < 3 \<Longrightarrow>
              \<exists>v n. v = cell ?G i j \<and> n = count_live_neighbors_ref 3 3 ?G i j \<and>
                     load (heap s') (grid s') i j =
                       Inr (if v = 1 then (if n < 2 \<or> n > 3 then 0 else 1)
                            else (if n = 3 then 1 else 0))"
    by fastforce
  have a: "load (heap s') (grid s') 1 1 = Inr 1"
    using c [of 1 1] by (simp add: n11 cell_def)
  have b: "load (heap s') (grid s') 0 0 = Inr 1"
    using c [of 0 0] by (simp add: n00 cell_def)
  show ?thesis
    using u a b sh bin n11 n00 by simp
qed

text \<open>
  C9. On a binary grid of shape \<open>(R, C)\<close> the grid that \<open>update\<close> returns, built by
  copying the current grid and overwriting a cell only when it is alive with fewer than
  2 or more than 3 neighbours (with 0) or dead with exactly 3 (with 1), is equal, as a
  whole array, to the reference next generation that recomputes every cell with the
  four-case rule. In the cases the loop does not list (alive with 2 or 3 neighbours,
  dead with a count other than 3) the cell of the result reads what the cell of the
  current grid reads: the value came through the copy.
\<close>

theorem update_refines_reference_rule:
  assumes sh: "shape R C (arr (heap s) (grid s))" and bin: "binary (arr (heap s) (grid s))"
    and live: "grid s < fresh (heap s)"
  shows "\<exists>s'. update R C s = Inr s' \<and>
           arr (heap s') (grid s') = advance_ref R C (arr (heap s) (grid s)) \<and>
           (\<forall>i j. 0 \<le> i \<and> i < R \<and> 0 \<le> j \<and> j < C \<longrightarrow>
              (\<exists>v n. load (heap s) (grid s) i j = Inr v \<and>
                     neighbors R C (heap s) (grid s) i j = Inr n \<and>
                     ((v = 1 \<and> (n = 2 \<or> n = 3)) \<or> (v = 0 \<and> n \<noteq> 3) \<longrightarrow>
                        load (heap s') (grid s') i j = Inr v)))"
proof -
  let ?a = "arr (heap s) (grid s)"
  from update_spec [OF sh live]
  obtain s' where u: "update R C s = Inr s'"
    and sh': "shape R C (arr (heap s') (grid s'))"
    and cells: "\<And>i j. 0 \<le> i \<Longrightarrow> i < R \<Longrightarrow> 0 \<le> j \<Longrightarrow> j < C \<Longrightarrow>
              cell (arr (heap s') (grid s')) i j = next_cell (cell ?a i j) (count R C ?a i j) (cell ?a i j)"
    by blast
  have eq: "arr (heap s') (grid s') = advance_ref R C ?a"
  proof (rule shape_ext [OF sh' shape_advance_ref [OF sh]])
    fix i j :: int assume ij: "0 \<le> i" "i < R" "0 \<le> j" "j < C"
    have pos: "0 < R" "0 < C" using ij by simp_all
    show "cell (arr (heap s') (grid s')) i j = cell (advance_ref R C ?a) i j"
      unfolding cells [OF ij] cell_advance_ref [OF ij]
      by (simp add: next_cell_is_next_state_ref [OF binary_cell [OF sh bin ij]]
          count_is_count_ref [OF sh bin pos])
  qed
  have keep: "\<exists>v n. load (heap s) (grid s) i j = Inr v \<and>
                     neighbors R C (heap s) (grid s) i j = Inr n \<and>
                     ((v = 1 \<and> (n = 2 \<or> n = 3)) \<or> (v = 0 \<and> n \<noteq> 3) \<longrightarrow>
                        load (heap s') (grid s') i j = Inr v)"
    if "0 \<le> i \<and> i < R \<and> 0 \<le> j \<and> j < C" for i j
  proof -
    have ij: "0 \<le> i" "i < R" "0 \<le> j" "j < C" using that by simp_all
    show ?thesis
      unfolding load_ok [OF sh ij] load_ok [OF sh' ij] neighbors_ok [OF sh ij] cells [OF ij]
      by (auto simp: next_cell_def)
  qed
  show ?thesis using u eq keep by blast
qed

theorem update_refines_reference_rule_witness:
  "shape 3 3 [[1, 1, 0], [1, 0, 0], [0, 0, 0]] \<and> binary [[1, 1, 0], [1, 0, 0], [0, 0, 0]] \<and>
   (\<exists>s'. update 3 3 \<lparr>heap = \<lparr>arr = (\<lambda>p. [[1, 1, 0], [1, 0, 0], [0, 0, 0]]), fresh = 1\<rparr>, grid = 0\<rparr> = Inr s' \<and>
         arr (heap s') (grid s') = advance_ref 3 3 [[1, 1, 0], [1, 0, 0], [0, 0, 0]] \<and>
         arr (heap s') (grid s') = [[1, 1, 1], [1, 1, 1], [1, 1, 1]])"
proof -
  let ?G = "[[1, 1, 0], [1, 0, 0], [0, 0, 0]] :: ndarray"
  let ?S = "\<lparr>heap = \<lparr>arr = (\<lambda>p. ?G), fresh = 1\<rparr>, grid = 0\<rparr>"
  have sh: "shape 3 3 (arr (heap ?S) (grid ?S))" and bin: "binary (arr (heap ?S) (grid ?S))"
    and live: "grid ?S < fresh (heap ?S)"
    by (simp_all add: shape_def binary_def)
  have r: "advance_ref 3 3 ?G = [[1, 1, 1], [1, 1, 1], [1, 1, 1]]"
    by code_simp
  from update_refines_reference_rule [OF sh bin live] sh bin r
  show ?thesis by auto
qed

subsection \<open>The wrapped neighbour positions\<close>

lemma wrap_succ:
  fixes i R :: int
  assumes "0 \<le> i" "i < R"
  shows "(i + 1) mod R = (if i + 1 = R then 0 else i + 1)"
proof (cases "i + 1 = R")
  case True
  then show ?thesis by simp
next
  case False
  then have "0 \<le> i + 1" "i + 1 < R" using assms by simp_all
  then have "(i + 1) mod R = i + 1" by (rule mod_pos_pos_trivial)
  then show ?thesis using False by simp
qed

lemma wrap_pred:
  fixes i R :: int
  assumes "0 \<le> i" "i < R"
  shows "(i - 1) mod R = (if i = 0 then R - 1 else i - 1)"
proof (cases "i = 0")
  case True
  have "(- 1) mod R = R - 1" using assms by (simp add: zmod_minus1)
  then show ?thesis using True by simp
next
  case False
  then have "0 \<le> i - 1" "i - 1 < R" using assms by simp_all
  then have "(i - 1) mod R = i - 1" by (rule mod_pos_pos_trivial)
  then show ?thesis using False by simp
qed

lemma py_sum_map: "py_sum f (map k xs) acc = py_sum (\<lambda>x. f (k x)) xs acc"
  by (induction xs arbitrary: acc) (simp_all split: sum.splits)

lemma py_sum_cong:
  "(\<And>x. x \<in> set xs \<Longrightarrow> f x = f' x) \<Longrightarrow> py_sum f xs acc = py_sum f' xs acc"
  by (induction xs arbitrary: acc) (simp_all split: sum.splits)

lemma neighbor_coords_simp:
  assumes "0 \<le> i" "i < R" "0 \<le> j" "j < C"
  shows "neighbor_coords R C i j =
     [((i - 1) mod R, (j - 1) mod C), ((i - 1) mod R, j), ((i - 1) mod R, (j + 1) mod C),
      (i, (j - 1) mod C), (i, (j + 1) mod C),
      ((i + 1) mod R, (j - 1) mod C), ((i + 1) mod R, j), ((i + 1) mod R, (j + 1) mod C)]"
  using assms by (simp add: neighbor_coords_def offsets_simp mod_pos_pos_trivial)

lemma neighbors_by_coords:
  assumes "R \<noteq> 0" "C \<noteq> 0"
  shows "neighbors R C h g i j = py_sum (\<lambda>(a, b). load h g a b) (neighbor_coords R C i j) 0"
  unfolding neighbors_def neighbor_coords_def py_sum_map
  by (rule py_sum_cong) (auto simp: neighbor_cell_def py_mod_def assms)

lemma count_by_coords:
  "count R C a i j = sum_list (map (\<lambda>(x, y). cell a x y) (neighbor_coords R C i j))"
  by (simp add: count_def neighbor_coords_def offsets_simp)

lemma neighbor_coords_in_range:
  assumes "0 < R" "0 < C" "(a, b) \<in> set (neighbor_coords R C i j)"
  shows "0 \<le> a \<and> a < R \<and> 0 \<le> b \<and> b < C"
  using assms by (auto simp: neighbor_coords_def)

lemma self_not_neighbor:
  assumes "0 \<le> i" "i < R" "0 \<le> j" "j < C" "2 \<le> R" "2 \<le> C"
  shows "(i, j) \<notin> set (neighbor_coords R C i j)"
  using assms
  by (auto simp: neighbor_coords_simp wrap_succ wrap_pred split: if_splits)

lemma count_put_self:
  assumes sh: "shape R C a" and ij: "0 \<le> i" "i < R" "0 \<le> j" "j < C" and big: "2 \<le> R" "2 \<le> C"
  shows "count R C (put a i j v) i j = count R C a i j"
proof -
  have "cell (put a i j v) x y = cell a x y" if "(x, y) \<in> set (neighbor_coords R C i j)" for x y
  proof -
    have r: "0 \<le> x \<and> x < R \<and> 0 \<le> y \<and> y < C"
      using that ij by (intro neighbor_coords_in_range [of R C x y i j]) auto
    have ne: "\<not> (x = i \<and> y = j)"
      using that self_not_neighbor [OF ij big] by auto
    show ?thesis
      using cell_put [OF sh ij, of x y v] r ne by simp
  qed
  then have "map (\<lambda>(x, y). cell (put a i j v) x y) (neighbor_coords R C i j) =
             map (\<lambda>(x, y). cell a x y) (neighbor_coords R C i j)"
    by (intro map_cong) auto
  then show ?thesis unfolding count_by_coords by (rule arg_cong)
qed

lemma count_ref_by_load:
  assumes sh: "shape R C (arr h g)" and pos: "0 < R" "0 < C"
  shows "count_live_neighbors_ref R C (arr h g) i j =
           int (length (filter (\<lambda>(di, dj). load h g ((i + di) mod R) ((j + dj) mod C) = Inr 1)
                  offsets_ref))"
proof -
  have "load h g ((i + di) mod R) ((j + dj) mod C) =
        Inr (cell (arr h g) ((i + di) mod R) ((j + dj) mod C))" for di dj
    by (rule load_ok [OF sh]) (simp_all add: pos)
  then have "(\<lambda>(di, dj). load h g ((i + di) mod R) ((j + dj) mod C) = Inr 1) =
             (\<lambda>(di, dj). cell (arr h g) ((i + di) mod R) ((j + dj) mod C) = 1)"
    by auto
  then show ?thesis by (simp add: count_live_neighbors_ref_def)
qed

text \<open>
  C3. On a binary grid of shape \<open>(R, C)\<close>, of any positive size (a single row or a
  single column included), and for every cell \<open>(i, j)\<close> of it, \<open>neighbors\<close> raises nothing.
  The offsets it goes through are the eight pairs with row and column offset in
  \<open>{-1, 0, 1}\<close> other than \<open>(0, 0)\<close>: the cell's own offset is left out. Each offset is
  taken modulo \<open>R\<close> and \<open>C\<close> and lands inside \<open>[0, R) \<times> [0, C)\<close>, also when the sum is
  negative. The result \<open>n\<close> is the number of these eight reads that find a live cell, so
  it lies between 0 and 8. On a grid with at least 2 rows and 2 columns none of the
  eight positions is \<open>(i, j)\<close>, and the count is the same whatever is stored in the cell
  \<open>(i, j)\<close>.
\<close>

theorem neighbors_reads_eight_wrapped_cells:
  assumes sh: "shape R C (arr h g)" and bin: "binary (arr h g)"
    and ij: "0 \<le> i" "i < R" "0 \<le> j" "j < C"
  shows "\<exists>n. neighbors R C h g i j = Inr n \<and> 0 \<le> n \<and> n \<le> 8 \<and>
           offsets = [(- 1, - 1), (- 1, 0), (- 1, 1), (0, - 1), (0, 1), (1, - 1), (1, 0), (1, 1)] \<and>
           (0, 0) \<notin> set offsets \<and> length offsets = 8 \<and>
           n = int (length (filter (\<lambda>(di, dj). load h g ((i + di) mod R) ((j + dj) mod C) = Inr 1)
                      [(- 1, - 1), (- 1, 0), (- 1, 1), (0, - 1), (0, 1), (1, - 1), (1, 0), (1, 1)])) \<and>
           n = count_live_neighbors_ref R C (arr h g) i j \<and>
           (\<forall>(di, dj) \<in> set offsets.
              0 \<le> (i + di) mod R \<and> (i + di) mod R < R \<and> 0 \<le> (j + dj) mod C \<and> (j + dj) mod C < C) \<and>
           (2 \<le> R \<and> 2 \<le> C \<longrightarrow>
              (i, j) \<notin> set (neighbor_coords R C i j) \<and>
              (\<forall>v. \<exists>h'. store_cell g i j v h = Inr h' \<and> neighbors R C h' g i j = Inr n))"
proof -
  have pos: "0 < R" "0 < C" using ij by simp_all
  have n: "neighbors R C h g i j = Inr (count R C (arr h g) i j)"
    by (rule neighbors_ok [OF sh ij])
  have cnt: "count R C (arr h g) i j = count_live_neighbors_ref R C (arr h g) i j"
    by (rule count_is_count_ref [OF sh bin pos])
  have byload: "count R C (arr h g) i j =
      int (length (filter (\<lambda>(di, dj). load h g ((i + di) mod R) ((j + dj) mod C) = Inr 1)
             [(- 1, - 1), (- 1, 0), (- 1, 1), (0, - 1), (0, 1), (1, - 1), (1, 0), (1, 1)]))"
    using count_ref_by_load [OF sh pos, of i j] cnt by (simp add: offsets_ref_def)
  have rng: "\<forall>(di, dj) \<in> set offsets.
      0 \<le> (i + di) mod R \<and> (i + di) mod R < R \<and> 0 \<le> (j + dj) mod C \<and> (j + dj) mod C < C"
    using pos by simp
  have ind: "\<exists>h'. store_cell g i j v h = Inr h' \<and> neighbors R C h' g i j = Inr (count R C (arr h g) i j)"
    if big: "2 \<le> R" "2 \<le> C" for v
  proof -
    let ?h = "h\<lparr>arr := (arr h)(g := put (arr h g) i j v)\<rparr>"
    have w: "store_cell g i j v h = Inr ?h" by (rule store_cell_ok [OF sh ij])
    have sh': "shape R C (arr ?h g)" using shape_put [OF sh, of i j v] by simp
    have "neighbors R C ?h g i j = Inr (count R C (arr ?h g) i j)"
      by (rule neighbors_ok [OF sh' ij])
    then have "neighbors R C ?h g i j = Inr (count R C (arr h g) i j)"
      using count_put_self [OF sh ij big, of v] by simp
    then show ?thesis using w by blast
  qed
  have off: "offsets = [(- 1, - 1), (- 1, 0), (- 1, 1), (0, - 1), (0, 1), (1, - 1), (1, 0), (1, 1)]"
    by (rule offsets_simp)
  have off0: "(0, 0) \<notin> set offsets" "length offsets = 8"
    by (simp_all add: offsets_simp)
  show ?thesis
  proof (intro exI conjI)
    show "neighbors R C h g i j = Inr (count R C (arr h g) i j)" by (rule n)
    show "0 \<le> count R C (arr h g) i j" "count R C (arr h g) i j \<le> 8"
      using count_bounds [OF sh bin pos, of i j] by simp_all
    show "offsets = [(- 1, - 1), (- 1, 0), (- 1, 1), (0, - 1), (0, 1), (1, - 1), (1, 0), (1, 1)]"
      by (rule off)
    show "(0, 0) \<notin> set offsets" "length offsets = 8" by (rule off0)+
    show "count R C (arr h g) i j =
      int (length (filter (\<lambda>(di, dj). load h g ((i + di) mod R) ((j + dj) mod C) = Inr 1)
             [(- 1, - 1), (- 1, 0), (- 1, 1), (0, - 1), (0, 1), (1, - 1), (1, 0), (1, 1)]))"
      by (rule byload)
    show "count R C (arr h g) i j = count_live_neighbors_ref R C (arr h g) i j" by (rule cnt)
    show "\<forall>(di, dj) \<in> set offsets.
      0 \<le> (i + di) mod R \<and> (i + di) mod R < R \<and> 0 \<le> (j + dj) mod C \<and> (j + dj) mod C < C"
      by (rule rng)
    show "2 \<le> R \<and> 2 \<le> C \<longrightarrow>
              (i, j) \<notin> set (neighbor_coords R C i j) \<and>
              (\<forall>v. \<exists>h'. store_cell g i j v h = Inr h' \<and>
                   neighbors R C h' g i j = Inr (count R C (arr h g) i j))"
      using ind self_not_neighbor [OF ij] by blast
  qed
qed

theorem neighbors_reads_eight_wrapped_cells_witness:
  "shape 1 1 [[1]] \<and> binary [[1]] \<and>
   neighbors 1 1 \<lparr>arr = (\<lambda>p. [[1]]), fresh = 1\<rparr> 0 0 0 = Inr 8 \<and>
   shape 1 3 [[1, 0, 1]] \<and> binary [[1, 0, 1]] \<and>
   neighbors 1 3 \<lparr>arr = (\<lambda>p. [[1, 0, 1]]), fresh = 1\<rparr> 0 0 1 = Inr 6 \<and>
   shape 3 3 [[1, 1, 0], [1, 0, 0], [0, 0, 0]] \<and> binary [[1, 1, 0], [1, 0, 0], [0, 0, 0]] \<and>
   neighbors 3 3 \<lparr>arr = (\<lambda>p. [[1, 1, 0], [1, 0, 0], [0, 0, 0]]), fresh = 1\<rparr> 0 1 1 = Inr 3 \<and>
   (\<exists>h'. store_cell 0 1 1 1 \<lparr>arr = (\<lambda>p. [[1, 1, 0], [1, 0, 0], [0, 0, 0]]), fresh = 1\<rparr> = Inr h' \<and>
         neighbors 3 3 h' 0 1 1 = Inr 3)"
proof -
  let ?A = "[[1]] :: ndarray"
  let ?B = "[[1, 0, 1]] :: ndarray"
  let ?G = "[[1, 1, 0], [1, 0, 0], [0, 0, 0]] :: ndarray"
  let ?HA = "\<lparr>arr = (\<lambda>p. ?A), fresh = 1\<rparr>"
  let ?HB = "\<lparr>arr = (\<lambda>p. ?B), fresh = 1\<rparr>"
  let ?H = "\<lparr>arr = (\<lambda>p. ?G), fresh = 1\<rparr>"
  have shA: "shape 1 1 (arr ?HA 0)" and binA: "binary (arr ?HA 0)"
    and shB: "shape 1 3 (arr ?HB 0)" and binB: "binary (arr ?HB 0)"
    and sh: "shape 3 3 (arr ?H 0)" and bin: "binary (arr ?H 0)"
    by (simp_all add: shape_def binary_def)
  have z: "(0::int) \<le> 0" "(0::int) < 1" and o: "(0::int) \<le> 1" "(1::int) < 3" by simp_all
  from neighbors_reads_eight_wrapped_cells [OF shA binA z z]
  have a: "neighbors 1 1 ?HA 0 0 0 = Inr (count_live_neighbors_ref 1 1 ?A 0 0)"
    by auto
  from neighbors_reads_eight_wrapped_cells [OF shB binB z o]
  have b: "neighbors 1 3 ?HB 0 0 1 = Inr (count_live_neighbors_ref 1 3 ?B 0 1)"
    by auto
  from neighbors_reads_eight_wrapped_cells [OF sh bin o o]
  obtain n where n: "neighbors 3 3 ?H 0 1 1 = Inr n" "n = count_live_neighbors_ref 3 3 ?G 1 1"
    and ind: "\<And>v. \<exists>h'. store_cell 0 1 1 v ?H = Inr h' \<and> neighbors 3 3 h' 0 1 1 = Inr n"
    by auto
  have v: "count_live_neighbors_ref 1 1 ?A 0 0 = 8" "count_live_neighbors_ref 1 3 ?B 0 1 = 6"
    "count_live_neighbors_ref 3 3 ?G 1 1 = 3"
    by (simp_all add: count_live_neighbors_ref_def offsets_ref_def cell_def)
  show ?thesis
    using a b n ind [of 1] v shA binA shB binB sh bin by simp
qed

lemma member_le_sum_list:
  fixes f :: "'a \<Rightarrow> int"
  shows "(\<And>x. x \<in> set xs \<Longrightarrow> 0 \<le> f x) \<Longrightarrow> y \<in> set xs \<Longrightarrow> f y \<le> sum_list (map f xs)"
proof (induction xs)
  case Nil
  then show ?case by simp
next
  case (Cons x xs)
  have nn: "0 \<le> sum_list (map f xs)"
    by (rule sum_list_nonneg) (auto simp: Cons.prems(1))
  show ?case
  proof (cases "y = x")
    case True
    then show ?thesis using nn by simp
  next
    case False
    then have "f y \<le> sum_list (map f xs)" using Cons by auto
    moreover have "0 \<le> f x" using Cons.prems(1) by simp
    ultimately show ?thesis by simp
  qed
qed

lemma count_ge_member:
  assumes sh: "shape R C a" and bin: "binary a" and pos: "0 < R" "0 < C"
    and m: "(x, y) \<in> set (neighbor_coords R C i j)"
  shows "cell a x y \<le> count R C a i j"
proof -
  have "(case (x, y) of (x, y) \<Rightarrow> cell a x y) \<le>
        sum_list (map (\<lambda>(x, y). cell a x y) (neighbor_coords R C i j))"
  proof (rule member_le_sum_list [OF _ m])
    fix p assume p: "p \<in> set (neighbor_coords R C i j)"
    obtain u v where uv: "p = (u, v)" by (cases p)
    have r: "0 \<le> u \<and> u < R \<and> 0 \<le> v \<and> v < C"
      using p uv neighbor_coords_in_range [OF pos, of u v i j] by simp
    have "cell a u v = 0 \<or> cell a u v = 1"
      using r by (intro binary_cell [OF sh bin]) simp_all
    then show "0 \<le> (case p of (x, y) \<Rightarrow> cell a x y)" using uv by auto
  qed
  then show ?thesis by (simp add: count_by_coords)
qed

lemma origin_in_coords:
  assumes "0 < R" "0 < C"
  shows "(0, 0) \<in> set (neighbor_coords R C (R - 1) (C - 1))"
    and "(0, 0) \<in> set (neighbor_coords R C (R - 1) 0)"
    and "(0, 0) \<in> set (neighbor_coords R C 0 (C - 1))"
  using assms by (simp_all add: neighbor_coords_def offsets_simp)

lemma sum_list_strict_mono:
  fixes f f' :: "'a \<Rightarrow> int"
  assumes "\<And>x. x \<in> set xs \<Longrightarrow> f x \<le> f' x" and "y \<in> set xs" and "f y < f' y"
  shows "sum_list (map f xs) < sum_list (map f' xs)"
  using assms
proof (induction xs)
  case Nil
  then show ?case by simp
next
  case (Cons x xs)
  have le: "sum_list (map f xs) \<le> sum_list (map f' xs)"
    by (rule sum_list_mono) (simp add: Cons.prems(1))
  have hd: "f x \<le> f' x" by (simp add: Cons.prems(1))
  show ?case
  proof (cases "y = x")
    case True
    then show ?thesis using le Cons.prems(3) by simp
  next
    case False
    then have "sum_list (map f xs) < sum_list (map f' xs)"
      using Cons by auto
    then show ?thesis using hd by simp
  qed
qed

lemma count_drops_without_origin:
  assumes sh: "shape R C a" and bin: "binary a" and pos: "0 < R" "0 < C"
    and one: "cell a 0 0 = 1" and m: "(0, 0) \<in> set (neighbor_coords R C i j)"
  shows "count R C (put a 0 0 0) i j < count R C a i j"
proof -
  have z: "(0::int) \<le> 0" by simp
  have c: "cell (put a 0 0 0) x y = (if x = 0 \<and> y = 0 then 0 else cell a x y)"
    if "0 \<le> x" "0 \<le> y" for x y
    by (rule cell_put [OF sh z pos(1) z pos(2) that])
  have "sum_list (map (\<lambda>(x, y). cell (put a 0 0 0) x y) (neighbor_coords R C i j)) <
        sum_list (map (\<lambda>(x, y). cell a x y) (neighbor_coords R C i j))"
  proof (rule sum_list_strict_mono [OF _ m])
    fix p assume p: "p \<in> set (neighbor_coords R C i j)"
    obtain x y where xy: "p = (x, y)" by (cases p)
    have r: "0 \<le> x \<and> x < R \<and> 0 \<le> y \<and> y < C"
      using p xy neighbor_coords_in_range [OF pos, of x y i j] by simp
    show "(case p of (x, y) \<Rightarrow> cell (put a 0 0 0) x y) \<le> (case p of (x, y) \<Rightarrow> cell a x y)"
      using r one by (simp add: xy c)
  next
    show "(case (0, 0) of (x, y) \<Rightarrow> cell (put a 0 0 0) x y) < (case (0, 0) of (x, y) \<Rightarrow> cell a x y)"
      using one by (simp add: c)
  qed
  then show ?thesis by (simp add: count_by_coords)
qed

text \<open>
  C6. Toroidal wraparound: take a binary grid of shape \<open>(R, C)\<close> with \<open>R, C > 0\<close> whose
  cell \<open>(0, 0)\<close> is alive, and let \<open>p\<close> be any of the cells \<open>(R - 1, C - 1)\<close>, \<open>(R - 1, 0)\<close>
  and \<open>(0, C - 1)\<close>. The cell \<open>(0, 0)\<close> is one of the eight positions read for \<open>p\<close>: it
  is \<open>p\<close> moved by the offset \<open>(1, 1)\<close>, \<open>(1, 0)\<close> or \<open>(0, 1)\<close> and wrapped. The count that
  \<open>neighbors\<close> returns for \<open>p\<close> is the number of live cells among the eight wrapped
  neighbours of \<open>p\<close> in the grid, it is at least 1, and it is strictly larger than the
  count \<open>neighbors\<close> returns for \<open>p\<close> once the cell \<open>(0, 0)\<close> has been set dead and nothing
  else changed: the live cell at \<open>(0, 0)\<close> is counted.
\<close>

theorem origin_counted_across_the_edges:
  assumes sh: "shape R C (arr h g)" and bin: "binary (arr h g)" and pos: "0 < R" "0 < C"
    and alive: "load h g 0 0 = Inr 1"
  shows "(0, 0) \<in> set (neighbor_coords R C (R - 1) (C - 1)) \<and>
         (0, 0) \<in> set (neighbor_coords R C (R - 1) 0) \<and>
         (0, 0) \<in> set (neighbor_coords R C 0 (C - 1)) \<and>
         (R - 1 + 1) mod R = 0 \<and> (C - 1 + 1) mod C = 0 \<and>
         (1, 1) \<in> set offsets \<and> (1, 0) \<in> set offsets \<and> (0, 1) \<in> set offsets \<and>
         (\<exists>h0. store_cell g 0 0 0 h = Inr h0 \<and> load h0 g 0 0 = Inr 0 \<and>
            (\<exists>n n0. neighbors R C h g (R - 1) (C - 1) = Inr n \<and>
                    n = count_live_neighbors_ref R C (arr h g) (R - 1) (C - 1) \<and> 1 \<le> n \<and>
                    neighbors R C h0 g (R - 1) (C - 1) = Inr n0 \<and> n0 < n) \<and>
            (\<exists>n n0. neighbors R C h g (R - 1) 0 = Inr n \<and>
                    n = count_live_neighbors_ref R C (arr h g) (R - 1) 0 \<and> 1 \<le> n \<and>
                    neighbors R C h0 g (R - 1) 0 = Inr n0 \<and> n0 < n) \<and>
            (\<exists>n n0. neighbors R C h g 0 (C - 1) = Inr n \<and>
                    n = count_live_neighbors_ref R C (arr h g) 0 (C - 1) \<and> 1 \<le> n \<and>
                    neighbors R C h0 g 0 (C - 1) = Inr n0 \<and> n0 < n))"
proof -
  let ?a = "arr h g"
  let ?h0 = "h\<lparr>arr := (arr h)(g := put ?a 0 0 0)\<rparr>"
  have z: "(0::int) \<le> 0" by simp
  have "load h g 0 0 = Inr (cell ?a 0 0)"
    by (rule load_ok [OF sh z pos(1) z pos(2)])
  then have one: "cell ?a 0 0 = 1" using alive by simp
  have w: "store_cell g 0 0 0 h = Inr ?h0"
    by (rule store_cell_ok [OF sh z pos(1) z pos(2)])
  have sh0: "shape R C (arr ?h0 g)" using shape_put [OF sh, of 0 0 0] by simp
  have dead: "load ?h0 g 0 0 = Inr 0"
    unfolding load_ok [OF sh0 z pos(1) z pos(2)]
    using cell_put [OF sh z pos(1) z pos(2) z z, of 0] by simp
  have r: "0 \<le> R - 1" "R - 1 < R" and c: "0 \<le> C - 1" "C - 1 < C" using pos by simp_all
  note m = origin_in_coords [OF pos]
  have main: "\<exists>n n0. neighbors R C h g i j = Inr n \<and>
                 n = count_live_neighbors_ref R C ?a i j \<and> 1 \<le> n \<and>
                 neighbors R C ?h0 g i j = Inr n0 \<and> n0 < n"
    if ij: "0 \<le> i" "i < R" "0 \<le> j" "j < C" and mem: "(0, 0) \<in> set (neighbor_coords R C i j)"
    for i j
  proof -
    have n: "neighbors R C h g i j = Inr (count R C ?a i j)"
      by (rule neighbors_ok [OF sh ij])
    have n0: "neighbors R C ?h0 g i j = Inr (count R C (arr ?h0 g) i j)"
      by (rule neighbors_ok [OF sh0 ij])
    have cnt: "count R C ?a i j = count_live_neighbors_ref R C ?a i j"
      by (rule count_is_count_ref [OF sh bin pos])
    have ge: "1 \<le> count R C ?a i j"
      using count_ge_member [OF sh bin pos mem] one by simp
    have less: "count R C (arr ?h0 g) i j < count R C ?a i j"
      using count_drops_without_origin [OF sh bin pos one mem] by simp
    show ?thesis
      using n n0 cnt ge less by simp
  qed
  have off: "(1, 1) \<in> set offsets" "(1, 0) \<in> set offsets" "(0, 1) \<in> set offsets"
    by (simp_all add: offsets_simp)
  have wrap: "(R - 1 + 1) mod R = 0" "(C - 1 + 1) mod C = 0" by simp_all
  show ?thesis
    using m off wrap w dead main [OF r c m(1)] main [OF r z pos(2) m(2)] main [OF z pos(1) c m(3)]
    by blast
qed

theorem origin_counted_across_the_edges_witness:
  "shape 4 5 [[1, 0, 0, 0, 0], [0, 0, 0, 0, 0], [0, 0, 0, 0, 0], [0, 0, 0, 0, 0]] \<and>
   binary [[1, 0, 0, 0, 0], [0, 0, 0, 0, 0], [0, 0, 0, 0, 0], [0, 0, 0, 0, 0]] \<and>
   load \<lparr>arr = (\<lambda>p. [[1, 0, 0, 0, 0], [0, 0, 0, 0, 0], [0, 0, 0, 0, 0], [0, 0, 0, 0, 0]]), fresh = 1\<rparr> 0 0 0 = Inr 1 \<and>
   neighbors 4 5 \<lparr>arr = (\<lambda>p. [[1, 0, 0, 0, 0], [0, 0, 0, 0, 0], [0, 0, 0, 0, 0], [0, 0, 0, 0, 0]]), fresh = 1\<rparr> 0 3 4 = Inr 1 \<and>
   neighbors 4 5 \<lparr>arr = (\<lambda>p. [[1, 0, 0, 0, 0], [0, 0, 0, 0, 0], [0, 0, 0, 0, 0], [0, 0, 0, 0, 0]]), fresh = 1\<rparr> 0 3 0 = Inr 1 \<and>
   neighbors 4 5 \<lparr>arr = (\<lambda>p. [[1, 0, 0, 0, 0], [0, 0, 0, 0, 0], [0, 0, 0, 0, 0], [0, 0, 0, 0, 0]]), fresh = 1\<rparr> 0 0 4 = Inr 1 \<and>
   (\<exists>h0 a b c. store_cell 0 0 0 0 \<lparr>arr = (\<lambda>p. [[1, 0, 0, 0, 0], [0, 0, 0, 0, 0], [0, 0, 0, 0, 0], [0, 0, 0, 0, 0]]), fresh = 1\<rparr> = Inr h0 \<and>
       neighbors 4 5 h0 0 3 4 = Inr a \<and> a < 1 \<and> neighbors 4 5 h0 0 3 0 = Inr b \<and> b < 1 \<and>
       neighbors 4 5 h0 0 0 4 = Inr c \<and> c < 1)"
proof -
  let ?G = "[[1, 0, 0, 0, 0], [0, 0, 0, 0, 0], [0, 0, 0, 0, 0], [0, 0, 0, 0, 0]] :: ndarray"
  let ?H = "\<lparr>arr = (\<lambda>p. ?G), fresh = 1\<rparr>"
  have sh: "shape 4 5 (arr ?H 0)" and bin: "binary (arr ?H 0)"
    by (simp_all add: shape_def binary_def)
  have pos: "(0::int) < 4" "(0::int) < 5" by simp_all
  have alive: "load ?H 0 0 0 = Inr 1" by (simp add: load_def getitem_def index_def)
  have v: "count_live_neighbors_ref 4 5 ?G 3 4 = 1" "count_live_neighbors_ref 4 5 ?G 3 0 = 1"
    "count_live_neighbors_ref 4 5 ?G 0 4 = 1"
    by (simp_all add: count_live_neighbors_ref_def offsets_ref_def cell_def)
  from origin_counted_across_the_edges [OF sh bin pos alive]
  obtain h0 a b c where "store_cell 0 0 0 0 ?H = Inr h0"
    "neighbors 4 5 ?H 0 3 4 = Inr (count_live_neighbors_ref 4 5 ?G 3 4)"
    "neighbors 4 5 h0 0 3 4 = Inr a" "a < count_live_neighbors_ref 4 5 ?G 3 4"
    "neighbors 4 5 ?H 0 3 0 = Inr (count_live_neighbors_ref 4 5 ?G 3 0)"
    "neighbors 4 5 h0 0 3 0 = Inr b" "b < count_live_neighbors_ref 4 5 ?G 3 0"
    "neighbors 4 5 ?H 0 0 4 = Inr (count_live_neighbors_ref 4 5 ?G 0 4)"
    "neighbors 4 5 h0 0 0 4 = Inr c" "c < count_live_neighbors_ref 4 5 ?G 0 4"
    by auto
  then show ?thesis
    using sh bin alive unfolding v by auto
qed

subsection \<open>The blinker\<close>

lemma count_product:
  assumes sh: "shape R C a" and ij: "0 \<le> i" "i < R" "0 \<le> j" "j < C"
    and prod: "\<And>x y. 0 \<le> x \<Longrightarrow> x < R \<Longrightarrow> 0 \<le> y \<Longrightarrow> y < C \<Longrightarrow> cell a x y = f x * g y"
  shows "count R C a i j =
           (f ((i - 1) mod R) + f i + f ((i + 1) mod R)) *
           (g ((j - 1) mod C) + g j + g ((j + 1) mod C)) - f i * g j"
proof -
  have pos: "0 < R" "0 < C" using ij by simp_all
  have p: "\<And>x y. cell a (x mod R) (y mod C) = f (x mod R) * g (y mod C)"
    by (rule prod) (simp_all add: pos)
  have pi: "\<And>y. cell a i (y mod C) = f i * g (y mod C)"
    by (rule prod) (simp_all add: pos ij)
  have pj: "\<And>x. cell a (x mod R) j = f (x mod R) * g j"
    by (rule prod) (simp_all add: pos ij)
  show ?thesis
    unfolding count_by_coords neighbor_coords_simp [OF ij]
    by (simp add: p pi pj algebra_simps)
qed

lemma single_sum:
  assumes "0 \<le> i" "i < n" "1 \<le> r" "r + 1 < n"
  shows "single r ((i - 1) mod n) + single r i + single r ((i + 1) mod n) = triple r i"
  using assms by (auto simp: single_def triple_def wrap_succ wrap_pred)

lemma triple_sum:
  assumes "0 \<le> j" "j < n" "2 \<le> c" "c + 2 < n"
  shows "triple c ((j - 1) mod n) + triple c j + triple c ((j + 1) mod n) =
           (if j = c then 3 else if j = c - 1 \<or> j = c + 1 then 2
            else if j = c - 2 \<or> j = c + 2 then 1 else 0)"
  using assms by (auto simp: triple_def wrap_succ wrap_pred)

lemma blinker_rule:
  "next_cell (single r i * triple c j)
     (triple r i *
        (if j = c then 3 else if j = c - 1 \<or> j = c + 1 then 2
         else if j = c - 2 \<or> j = c + 2 then 1 else 0) - single r i * triple c j)
     (single r i * triple c j) = triple r i * single c j"
  by (auto simp: next_cell_def single_def triple_def)

lemma blinker_rule':
  "next_cell (triple r i * single c j)
     ((if i = r then 3 else if i = r - 1 \<or> i = r + 1 then 2
         else if i = r - 2 \<or> i = r + 2 then 1 else 0) * triple c j - triple r i * single c j)
     (triple r i * single c j) = single r i * triple c j"
  by (auto simp: next_cell_def single_def triple_def)

lemma horizontal_to_vertical:
  assumes sh: "shape R C a" and m: "2 \<le> r" "r + 2 < R" "2 \<le> c" "c + 2 < C"
    and a: "\<And>x y. 0 \<le> x \<Longrightarrow> x < R \<Longrightarrow> 0 \<le> y \<Longrightarrow> y < C \<Longrightarrow> cell a x y = single r x * triple c y"
    and ij: "0 \<le> i" "i < R" "0 \<le> j" "j < C"
  shows "next_cell (cell a i j) (count R C a i j) (cell a i j) = triple r i * single c j"
proof -
  have r1: "1 \<le> r" "r + 1 < R" using m by simp_all
  have "count R C a i j =
          (single r ((i - 1) mod R) + single r i + single r ((i + 1) mod R)) *
          (triple c ((j - 1) mod C) + triple c j + triple c ((j + 1) mod C)) -
          single r i * triple c j"
    by (rule count_product [OF sh ij]) (rule a)
  then have n: "count R C a i j =
          triple r i *
            (if j = c then 3 else if j = c - 1 \<or> j = c + 1 then 2
             else if j = c - 2 \<or> j = c + 2 then 1 else 0) - single r i * triple c j"
    by (simp only: single_sum [OF ij(1,2) r1] triple_sum [OF ij(3,4) m(3,4)])
  show ?thesis
    unfolding n a [OF ij] by (rule blinker_rule)
qed

lemma vertical_to_horizontal:
  assumes sh: "shape R C a" and m: "2 \<le> r" "r + 2 < R" "2 \<le> c" "c + 2 < C"
    and a: "\<And>x y. 0 \<le> x \<Longrightarrow> x < R \<Longrightarrow> 0 \<le> y \<Longrightarrow> y < C \<Longrightarrow> cell a x y = triple r x * single c y"
    and ij: "0 \<le> i" "i < R" "0 \<le> j" "j < C"
  shows "next_cell (cell a i j) (count R C a i j) (cell a i j) = single r i * triple c j"
proof -
  have c1: "1 \<le> c" "c + 1 < C" using m by simp_all
  have "count R C a i j =
          (triple r ((i - 1) mod R) + triple r i + triple r ((i + 1) mod R)) *
          (single c ((j - 1) mod C) + single c j + single c ((j + 1) mod C)) -
          triple r i * single c j"
    by (rule count_product [OF sh ij]) (rule a)
  then have n: "count R C a i j =
          (if i = r then 3 else if i = r - 1 \<or> i = r + 1 then 2
           else if i = r - 2 \<or> i = r + 2 then 1 else 0) * triple c j - triple r i * single c j"
    by (simp only: single_sum [OF ij(3,4) c1] triple_sum [OF ij(1,2) m(1,2)])
  show ?thesis
    unfolding n a [OF ij] by (rule blinker_rule')
qed

text \<open>
  C7. The blinker is an oscillator of period 2. On a grid of \<open>R\<close> rows and \<open>C\<close> columns
  seeded with the horizontal triple \<open>(r, c - 1), (r, c), (r, c + 1)\<close> and nothing else,
  with the triple at least two cells away from every edge (\<open>2 \<le> r\<close>, \<open>r + 2 < R\<close>,
  \<open>2 \<le> c\<close>, \<open>c + 2 < C\<close>, so that nothing wraps around), creation, seeding and two calls
  of \<open>update\<close> raise nothing, and the grid after the second call is equal to the seeded
  grid; the grid after the first call is not. The program's own \<open>Blinker\<close> pattern on
  its \<open>60 \<times> 60\<close> grid is such a case.
\<close>

theorem blinker_has_period_two:
  assumes m: "2 \<le> r" "r + 2 < R" "2 \<le> c" "c + 2 < C"
  shows "\<exists>s0 s1 s2. run_simulation R C [(r, c - 1), (r, c), (r, c + 1)] h = Inr s0 \<and>
           update R C s0 = Inr s1 \<and> update R C s1 = Inr s2 \<and>
           animate R C 2 s0 = Inr s2 \<and>
           arr (heap s2) (grid s2) = arr (heap s0) (grid s0) \<and>
           arr (heap s1) (grid s1) \<noteq> arr (heap s0) (grid s0)"
proof -
  have R: "0 \<le> R" and C: "0 \<le> C" using m by simp_all
  from run_simulation_ok [OF R C, of "[(r, c - 1), (r, c), (r, c + 1)]" h]
  obtain s0 where s0: "run_simulation R C [(r, c - 1), (r, c), (r, c + 1)] h = Inr s0"
    and g0: "grid s0 = fresh h" and f0: "fresh (heap s0) = Suc (fresh h)"
    and sh0: "shape R C (arr (heap s0) (grid s0))"
    and c0: "\<And>i j. 0 \<le> i \<and> i < R \<and> 0 \<le> j \<and> j < C \<Longrightarrow>
              cell (arr (heap s0) (grid s0)) i j =
                (if (i, j) \<in> set [(r, c - 1), (r, c), (r, c + 1)] then 1 else 0)"
    by blast
  let ?a0 = "arr (heap s0) (grid s0)"
  have a0: "cell ?a0 x y = single r x * triple c y"
    if "0 \<le> x" "x < R" "0 \<le> y" "y < C" for x y
    using c0 [of x y] that by (auto simp: single_def triple_def)
  have live0: "grid s0 < fresh (heap s0)" using g0 f0 by simp
  from update_spec [OF sh0 live0]
  obtain s1 where s1: "update R C s0 = Inr s1"
    and g1: "grid s1 = fresh (heap s0)" and f1: "fresh (heap s1) = Suc (fresh (heap s0))"
    and sh1: "shape R C (arr (heap s1) (grid s1))"
    and c1: "\<And>i j. 0 \<le> i \<and> i < R \<and> 0 \<le> j \<and> j < C \<Longrightarrow>
              cell (arr (heap s1) (grid s1)) i j =
                next_cell (cell ?a0 i j) (count R C ?a0 i j) (cell ?a0 i j)"
    by blast
  let ?a1 = "arr (heap s1) (grid s1)"
  have a1: "cell ?a1 x y = triple r x * single c y"
    if "0 \<le> x" "x < R" "0 \<le> y" "y < C" for x y
    using c1 [of x y] that horizontal_to_vertical [OF sh0 m a0 that] by simp
  have live1: "grid s1 < fresh (heap s1)" using g1 f1 by simp
  from update_spec [OF sh1 live1]
  obtain s2 where s2: "update R C s1 = Inr s2"
    and sh2: "shape R C (arr (heap s2) (grid s2))"
    and c2: "\<And>i j. 0 \<le> i \<and> i < R \<and> 0 \<le> j \<and> j < C \<Longrightarrow>
              cell (arr (heap s2) (grid s2)) i j =
                next_cell (cell ?a1 i j) (count R C ?a1 i j) (cell ?a1 i j)"
    by blast
  let ?a2 = "arr (heap s2) (grid s2)"
  have a2: "cell ?a2 x y = single r x * triple c y"
    if "0 \<le> x" "x < R" "0 \<le> y" "y < C" for x y
    using c2 [of x y] that vertical_to_horizontal [OF sh1 m a1 that] by simp
  have same: "?a2 = ?a0"
    by (rule shape_ext [OF sh2 sh0]) (simp add: a0 a2)
  have rc: "0 \<le> r" "r < R" "0 \<le> c - 1" "c - 1 < C" using m by simp_all
  have "cell ?a0 r (c - 1) = 1" "cell ?a1 r (c - 1) = 0"
    using a0 [OF rc] a1 [OF rc] by (simp_all add: single_def triple_def)
  then have differ: "?a1 \<noteq> ?a0" by auto
  have an: "animate R C 2 s0 = Inr s2"
    using s1 s2 by (simp add: numeral_2_eq_2)
  show ?thesis using s0 s1 s2 an same differ by blast
qed

theorem blinker_has_period_two_witness:
  "(2::int) \<le> 30 \<and> (30::int) + 2 < GRID_ROWS \<and> (30::int) + 2 < GRID_COLS \<and>
   (\<exists>s0 s2. run_simulation GRID_ROWS GRID_COLS Blinker \<lparr>arr = (\<lambda>p. []), fresh = 0\<rparr> = Inr s0 \<and>
       animate GRID_ROWS GRID_COLS 2 s0 = Inr s2 \<and>
       arr (heap s2) (grid s2) = arr (heap s0) (grid s0))"
proof -
  have m: "(2::int) \<le> 30" "(30::int) + 2 < GRID_ROWS" "(2::int) \<le> 30" "(30::int) + 2 < GRID_COLS"
    by (simp_all add: GRID_ROWS_def GRID_COLS_def)
  have b: "Blinker = [(30, 30 - 1), (30, 30), (30, 30 + 1)]"
    by (simp add: Blinker_def)
  from blinker_has_period_two [OF m, of "\<lparr>arr = (\<lambda>p. []), fresh = 0\<rparr>"]
  show ?thesis unfolding b using m by blast
qed

end
